theory Spec2Isabelle
  imports Complex_Main "HOL-Library.Word" "HOL-Library.AList"
begin

section \<open>Arrays\<close>

text \<open>
  A NumPy array of three dimensions is its shape and its buffer in row-major (C) order:
  \<open>a[i, j, k]\<close> is the element at offset \<open>i * shape_y * shape_z + j * shape_z + k\<close>,
  and \<open>a.flat[idx]\<close> is the element at offset \<open>idx\<close>.
\<close>

record 'a ndarray =
  shape_x :: nat
  shape_y :: nat
  shape_z :: nat
  flat :: "'a list"

text \<open>Every NumPy array holds as many elements as its shape says.\<close>

definition wf_ndarray :: "'a ndarray \<Rightarrow> bool" where
  "wf_ndarray a \<longleftrightarrow> length (flat a) = shape_x a * shape_y a * shape_z a"

definition item3 :: "'a ndarray \<Rightarrow> nat \<Rightarrow> nat \<Rightarrow> nat \<Rightarrow> 'a" where
  "item3 a i j k = flat a ! (i * shape_y a * shape_z a + j * shape_z a + k)"

text \<open>The array of a given shape whose element at \<open>[i, j, k]\<close> is \<open>f i j k\<close>.\<close>

definition tabulate3 :: "nat \<Rightarrow> nat \<Rightarrow> nat \<Rightarrow> (nat \<Rightarrow> nat \<Rightarrow> nat \<Rightarrow> 'a) \<Rightarrow> 'a ndarray" where
  "tabulate3 sx sy sz f =
     \<lparr>shape_x = sx, shape_y = sy, shape_z = sz,
      flat = map (\<lambda>idx. f (idx div (sy * sz)) (idx mod (sy * sz) div sz) (idx mod sz))
                 [0 ..< sx * sy * sz]\<rparr>"

text \<open>\<open>np.zeros(shape)\<close>, \<open>np.ones(shape)\<close>.\<close>

definition zeros :: "nat \<Rightarrow> nat \<Rightarrow> nat \<Rightarrow> ('a::zero) ndarray" where
  "zeros sx sy sz = tabulate3 sx sy sz (\<lambda>i j k. 0)"

definition ones :: "nat \<Rightarrow> nat \<Rightarrow> nat \<Rightarrow> ('a::one) ndarray" where
  "ones sx sy sz = tabulate3 sx sy sz (\<lambda>i j k. 1)"

text \<open>
  A basic slice \<open>a[x0:x1, y0:y1, z0:z1]\<close> with bounds already resolved to
  non-negative positions inside the array.
\<close>

definition slice3 :: "'a ndarray \<Rightarrow> nat \<times> nat \<Rightarrow> nat \<times> nat \<Rightarrow> nat \<times> nat \<Rightarrow> 'a ndarray" where
  "slice3 a xr yr zr =
     tabulate3 (snd xr - fst xr) (snd yr - fst yr) (snd zr - fst zr)
       (\<lambda>i j k. item3 a (fst xr + i) (fst yr + j) (fst zr + k))"

text \<open>The three slices the source takes along an axis of length \<open>n\<close>.\<close>

definition upto_m2 :: "nat \<Rightarrow> nat \<times> nat" where \<comment> \<open>\<open>[:-2]\<close>\<close>
  "upto_m2 n = (0, n - 2)"

definition from_2 :: "nat \<Rightarrow> nat \<times> nat" where \<comment> \<open>\<open>[2:]\<close>\<close>
  "from_2 n = (min 2 n, n)"

definition inner :: "nat \<Rightarrow> nat \<times> nat" where \<comment> \<open>\<open>[1:-1]\<close>\<close>
  "inner n = (min 1 n, n - 1)"

text \<open>\<open>a[1:-1, 1:-1, 1:-1] = b\<close>, the elements of \<open>b\<close> cast by \<open>cast\<close> to the type of \<open>a\<close>.\<close>

definition set_inner :: "'a ndarray \<Rightarrow> ('b \<Rightarrow> 'a) \<Rightarrow> 'b ndarray \<Rightarrow> 'a ndarray" where
  "set_inner a cast b =
     tabulate3 (shape_x a) (shape_y a) (shape_z a)
       (\<lambda>i j k. if 1 \<le> i \<and> i < shape_x a - 1 \<and> 1 \<le> j \<and> j < shape_y a - 1
                    \<and> 1 \<le> k \<and> k < shape_z a - 1
                 then cast (item3 b (i - 1) (j - 1) (k - 1))
                 else item3 a i j k)"

text \<open>Elementwise \<open>a + b\<close> of two arrays of one shape.\<close>

definition add3 :: "('a::plus) ndarray \<Rightarrow> 'a ndarray \<Rightarrow> 'a ndarray" where
  "add3 a b = tabulate3 (shape_x a) (shape_y a) (shape_z a)
                (\<lambda>i j k. item3 a i j k + item3 b i j k)"

text \<open>\<open>np.pad(a, 1, mode='constant')\<close>: one layer of zeros on every side.\<close>

definition pad1 :: "('a::zero) ndarray \<Rightarrow> 'a ndarray" where
  "pad1 a =
     tabulate3 (shape_x a + 2) (shape_y a + 2) (shape_z a + 2)
       (\<lambda>i j k. if 1 \<le> i \<and> i \<le> shape_x a \<and> 1 \<le> j \<and> j \<le> shape_y a
                    \<and> 1 \<le> k \<and> k \<le> shape_z a
                 then item3 a (i - 1) (j - 1) (k - 1)
                 else 0)"

text \<open>
  \<open>np.roll(a, s, axis)\<close>: the element at position \<open>p\<close> along the axis moves to
  \<open>(p + s) mod n\<close>, so the result at \<open>p\<close> is the source at \<open>(p - s) mod n\<close>.
\<close>

definition roll_index :: "int \<Rightarrow> nat \<Rightarrow> nat \<Rightarrow> nat" where
  "roll_index s n p = nat ((int p - s) mod int n)"

definition roll3 :: "'a ndarray \<Rightarrow> int \<Rightarrow> nat \<Rightarrow> 'a ndarray" where
  "roll3 a s axis =
     tabulate3 (shape_x a) (shape_y a) (shape_z a)
       (\<lambda>i j k. if axis = 0 then item3 a (roll_index s (shape_x a) i) j k
                 else if axis = 1 then item3 a i (roll_index s (shape_y a) j) k
                 else item3 a i j (roll_index s (shape_z a) k))"

text \<open>\<open>a.astype(t)\<close>, and the cast of a loader that reads the file at type \<open>t\<close>.\<close>

definition astype :: "('a \<Rightarrow> 'b) \<Rightarrow> 'a ndarray \<Rightarrow> 'b ndarray" where
  "astype cast a =
     \<lparr>shape_x = shape_x a, shape_y = shape_y a, shape_z = shape_z a, flat = map cast (flat a)\<rparr>"

section \<open>Neighbour tables\<close>

type_synonym offset = "int \<times> int \<times> int"

definition NEIGHBORS_6 :: "offset list" where
  "NEIGHBORS_6 = [(1, 0, 0), (-1, 0, 0), (0, 1, 0), (0, -1, 0), (0, 0, 1), (0, 0, -1)]"

definition NEIGHBORS_18 :: "offset list" where
  "NEIGHBORS_18 =
     [(x, y, z). x \<leftarrow> [-1, 0, 1], y \<leftarrow> [-1, 0, 1], z \<leftarrow> [-1, 0, 1],
                 (x, y, z) \<noteq> (0, 0, 0) \<and> \<bar>x\<bar> + \<bar>y\<bar> + \<bar>z\<bar> \<le> 2]"

definition NEIGHBORS_26 :: "offset list" where
  "NEIGHBORS_26 =
     [(x, y, z). x \<leftarrow> [-1, 0, 1], y \<leftarrow> [-1, 0, 1], z \<leftarrow> [-1, 0, 1],
                 (x, y, z) \<noteq> (0, 0, 0)]"

section \<open>Surface extraction\<close>

type_synonym u8 = "8 word"

text \<open>
  \<open>ProcessVoxelDataOperator.execute\<close>, from the reshaped and rotated \<open>data\<close> on:
  the padded copy is an array of \<open>uint8\<close>, so the neighbour sum is computed in
  \<open>uint8\<close> arithmetic.
\<close>

definition padded_data :: "u8 ndarray \<Rightarrow> u8 ndarray" where
  "padded_data data =
     set_inner (zeros (shape_x data + 2) (shape_y data + 2) (shape_z data + 2)) id data"

definition neighbor_sum :: "u8 ndarray \<Rightarrow> u8 ndarray" where
  "neighbor_sum data =
     (let p = padded_data data;
          px = shape_x p; py = shape_y p; pz = shape_z p
      in add3 (add3 (add3 (add3 (add3
           (slice3 p (upto_m2 px) (inner py) (inner pz))
           (slice3 p (from_2 px) (inner py) (inner pz)))
           (slice3 p (inner px) (upto_m2 py) (inner pz)))
           (slice3 p (inner px) (from_2 py) (inner pz)))
           (slice3 p (inner px) (inner py) (upto_m2 pz)))
           (slice3 p (inner px) (inner py) (from_2 pz)))"

definition surface_voxels :: "u8 ndarray \<Rightarrow> bool ndarray" where
  "surface_voxels data =
     tabulate3 (shape_x data) (shape_y data) (shape_z data)
       (\<lambda>i j k. item3 data i j k = 1 \<and> item3 (neighbor_sum data) i j k < 6)"

text \<open>
  Vertex coordinates: the source mixes the integers \<open>i, j, k\<close> with the floats
  \<open>i + 1.0\<close>; Python compares and hashes them by numeric value, so a coordinate is
  modelled as an integer.
\<close>

type_synonym vertex = "int \<times> int \<times> int"
type_synonym face = "nat \<times> nat \<times> nat \<times> nat"

record mesh_state =
  vertices :: "vertex list"
  vertex_map :: "vertex \<rightharpoonup> nat"
  face_count :: "(face \<times> nat) list"

definition cube_size :: int where
  "cube_size = 1"

definition cube_vertices :: "nat \<Rightarrow> nat \<Rightarrow> nat \<Rightarrow> vertex list" where
  "cube_vertices i j k =
     [(int i, int j, int k),
      (int i + cube_size, int j, int k),
      (int i + cube_size, int j + cube_size, int k),
      (int i, int j + cube_size, int k),
      (int i, int j, int k + cube_size),
      (int i + cube_size, int j, int k + cube_size),
      (int i + cube_size, int j + cube_size, int k + cube_size),
      (int i, int j + cube_size, int k + cube_size)]"

text \<open>The loop over the eight corners: the state and the indices collected so far.\<close>

fun assign_index :: "mesh_state \<times> nat list \<Rightarrow> vertex \<Rightarrow> mesh_state \<times> nat list" where
  "assign_index (s, vertex_indices) v =
     (case vertex_map s v of
        None \<Rightarrow>
          (s\<lparr>vertex_map := (vertex_map s)(v \<mapsto> length (vertices s)),
             vertices := vertices s @ [v]\<rparr>,
           vertex_indices @ [length (vertices s)])
      | Some n \<Rightarrow> (s, vertex_indices @ [n]))"

definition cube_faces :: "bool \<Rightarrow> nat list \<Rightarrow> face list" where
  "cube_faces is_clockwise vi =
     (if is_clockwise then
        [(vi ! 0, vi ! 1, vi ! 2, vi ! 3),
         (vi ! 4, vi ! 5, vi ! 6, vi ! 7),
         (vi ! 0, vi ! 1, vi ! 5, vi ! 4),
         (vi ! 1, vi ! 2, vi ! 6, vi ! 5),
         (vi ! 2, vi ! 3, vi ! 7, vi ! 6),
         (vi ! 3, vi ! 0, vi ! 4, vi ! 7)]
      else
        [(vi ! 1, vi ! 0, vi ! 3, vi ! 2),
         (vi ! 5, vi ! 4, vi ! 7, vi ! 6),
         (vi ! 1, vi ! 0, vi ! 4, vi ! 5),
         (vi ! 2, vi ! 1, vi ! 5, vi ! 6),
         (vi ! 3, vi ! 2, vi ! 6, vi ! 7),
         (vi ! 0, vi ! 3, vi ! 7, vi ! 4)])"

text \<open>
  \<open>face_count\<close> is a dictionary read in insertion order at the end: an association
  list, where a new key goes to the end and a known key keeps its place.
\<close>

definition count_face :: "(face \<times> nat) list \<Rightarrow> face \<Rightarrow> (face \<times> nat) list" where
  "count_face fc f =
     (case map_of fc f of
        Some c \<Rightarrow> AList.update f (c + 1) fc
      | None \<Rightarrow> AList.update f 1 fc)"

definition process_voxel :: "bool ndarray \<Rightarrow> mesh_state \<Rightarrow> nat \<times> nat \<times> nat \<Rightarrow> mesh_state" where
  "process_voxel surface s p =
     (case p of (i, j, k) \<Rightarrow>
        if item3 surface i j k then
          (let is_clockwise = ((i + j + k) mod 2 = 0);
               (s', vertex_indices) = fold (\<lambda>v st. assign_index st v) (cube_vertices i j k) (s, []);
               fs = cube_faces is_clockwise vertex_indices
           in s'\<lparr>face_count := fold (\<lambda>f fc. count_face fc f) fs (face_count s')\<rparr>)
        else s)"

text \<open>The positions \<open>(i, j, k)\<close> in the order of the three nested loops.\<close>

definition positions :: "nat \<Rightarrow> nat \<Rightarrow> nat \<Rightarrow> (nat \<times> nat \<times> nat) list" where
  "positions sx sy sz = [(i, j, k). i \<leftarrow> [0 ..< sx], j \<leftarrow> [0 ..< sy], k \<leftarrow> [0 ..< sz]]"

definition build_mesh :: "u8 ndarray \<Rightarrow> mesh_state" where
  "build_mesh data =
     (let surface = surface_voxels data
      in fold (\<lambda>p s. process_voxel surface s p)
           (positions (shape_x surface) (shape_y surface) (shape_z surface))
           \<lparr>vertices = [], vertex_map = Map.empty, face_count = []\<rparr>)"

definition faces_list :: "u8 ndarray \<Rightarrow> face list" where
  "faces_list data = [f. (f, c) \<leftarrow> face_count (build_mesh data), c = 1]"

text \<open>
  \<open>ProcessVoxelDataOperatorComplete.execute\<close>: the grid is read as \<open>float64\<close>,
  padded with \<open>np.pad\<close>, and the neighbour sum is taken with \<open>np.roll\<close> on the
  padded array, then cut to its interior. The cells are modelled as reals: on a grid of
  zeros and ones every sum is an integer of at most 6, which \<open>float64\<close> holds exactly.
\<close>

definition complete_neighbor_sum :: "real ndarray \<Rightarrow> real ndarray" where
  "complete_neighbor_sum data =
     (let padded = pad1 data
      in add3 (add3 (add3 (add3 (add3
           (roll3 padded 1 0) (roll3 padded (-1) 0))
           (roll3 padded 1 1)) (roll3 padded (-1) 1))
           (roll3 padded 1 2)) (roll3 padded (-1) 2))"

definition perimeter_voxels :: "real ndarray \<Rightarrow> bool ndarray" where
  "perimeter_voxels data =
     (let ns = complete_neighbor_sum data
      in tabulate3 (shape_x data) (shape_y data) (shape_z data)
           (\<lambda>i j k. item3 data i j k = 1
              \<and> item3 (slice3 ns (inner (shape_x ns)) (inner (shape_y ns)) (inner (shape_z ns))) i j k < 6))"

section \<open>Flood fill\<close>

text \<open>
  The source raises \<open>ValueError\<close> for a connectivity other than 6, 18 and 26 (the
  specification calls it InvalidAdjacencyModel). \<open>IndexError\<close> is what Python raises
  when an array is indexed outside its bounds.
\<close>

datatype error = ValueError | IndexError

definition select_neighbors :: "int \<Rightarrow> error + offset list" where
  "select_neighbors connectivity =
     (if connectivity = 6 then Inr NEIGHBORS_6
      else if connectivity = 18 then Inr NEIGHBORS_18
      else if connectivity = 26 then Inr NEIGHBORS_26
      else Inl ValueError)"

text \<open>
  What a traversal can read and write: the grid \<open>data\<close> and the boolean array
  \<open>visited\<close> (its buffer; in \<open>find_bubbles\<close> it has the shape of \<open>data\<close>).
\<close>

record 'a store =
  data :: "'a ndarray"
  visited :: "bool list"

text \<open>
  A raise ends the call and leaves the store as it is at that moment: a raised error
  comes with that store.
\<close>

type_synonym 'a raised = "error \<times> 'a store"

text \<open>A \<open>for\<close> loop whose body may raise: the first error ends it.\<close>

fun for_each :: "('s \<Rightarrow> 'x \<Rightarrow> 'e + 's) \<Rightarrow> 's \<Rightarrow> 'x list \<Rightarrow> 'e + 's" where
  "for_each body s [] = Inr s"
| "for_each body s (x # xs) =
     (case body s x of Inl e \<Rightarrow> Inl e | Inr s' \<Rightarrow> for_each body s' xs)"

text \<open>
  The bounds test of both traversals, the flat index of a position, and the position of
  a flat index as \<open>bfs\<close> computes it. (\<open>bfs\<close> runs only on an index below
  \<open>total_voxels\<close>, so the divisor \<open>shape_y * shape_z\<close> is positive there.)
\<close>

definition in_bounds :: "'a ndarray \<Rightarrow> int \<Rightarrow> int \<Rightarrow> int \<Rightarrow> bool" where
  "in_bounds d nx ny nz \<longleftrightarrow>
     0 \<le> nx \<and> nx < int (shape_x d) \<and> 0 \<le> ny \<and> ny < int (shape_y d)
     \<and> 0 \<le> nz \<and> nz < int (shape_z d)"

definition ravel :: "'a ndarray \<Rightarrow> int \<Rightarrow> int \<Rightarrow> int \<Rightarrow> nat" where
  "ravel d nx ny nz = nat (nx * int (shape_y d) * int (shape_z d) + ny * int (shape_z d) + nz)"

definition unravel :: "'a ndarray \<Rightarrow> nat \<Rightarrow> int \<times> int \<times> int" where
  "unravel d idx =
     (int (idx div (shape_y d * shape_z d)),
      int (idx mod (shape_y d * shape_z d) div shape_z d),
      int (idx mod shape_z d))"

subsection \<open>Connected components\<close>

text \<open>
  The body of the loop over \<open>neighbors\<close> in \<open>bfs\<close> of \<open>find_connected_components\<close>;
  an access to \<open>visited\<close> outside its length raises IndexError.
\<close>

fun cc_visit :: "int \<times> int \<times> int \<Rightarrow> ('a::one) store \<times> nat list \<Rightarrow> offset
    \<Rightarrow> 'a raised + ('a store \<times> nat list)" where
  "cc_visit (cx, cy, cz) (s, queue) (dx, dy, dz) =
     (let nx = cx + dx; ny = cy + dy; nz = cz + dz
      in if in_bounds (data s) nx ny nz then
           (let neighbor_idx = ravel (data s) nx ny nz
            in if item3 (data s) (nat nx) (nat ny) (nat nz) = 1 then
                 (if neighbor_idx < length (visited s) then
                    (if \<not> visited s ! neighbor_idx
                     then Inr (s\<lparr>visited := (visited s)[neighbor_idx := True]\<rparr>,
                                queue @ [neighbor_idx])
                     else Inr (s, queue))
                  else Inl (IndexError, s))
               else Inr (s, queue))
         else Inr (s, queue))"

definition unvisited :: "'a store \<Rightarrow> nat" where
  "unvisited s = card {i. i < length (visited s) \<and> \<not> visited s ! i}"

function cc_bfs_loop :: "offset list \<Rightarrow> ('a::one) store \<Rightarrow> nat list \<Rightarrow> 'a raised + 'a store" where
  "cc_bfs_loop neighbors s [] = Inr s"
| "cc_bfs_loop neighbors s (current_idx # queue) =
     (case for_each (cc_visit (unravel (data s) current_idx)) (s, queue) neighbors of
        Inl e \<Rightarrow> Inl e
      | Inr (s', queue') \<Rightarrow> cc_bfs_loop neighbors s' queue')"
  by pat_completeness auto

text \<open>
  The loop ends: every index put on the queue was unvisited and is marked visited.
\<close>

lemma unvisited_mark:
  assumes "n < length (visited s)" "\<not> visited s ! n"
  shows "unvisited (s\<lparr>visited := (visited s)[n := True]\<rparr>) < unvisited s"
proof -
  let ?A = "{i. i < length (visited s) \<and> \<not> visited s ! i}"
  have "{i. i < length ((visited s)[n := True]) \<and> \<not> (visited s)[n := True] ! i} = ?A - {n}"
    using assms by (auto simp: nth_list_update split: if_splits)
  moreover have "finite ?A" "n \<in> ?A" using assms by auto
  then have "card (?A - {n}) < card ?A" by (rule card_Diff1_less)
  ultimately show ?thesis
    unfolding unvisited_def by simp
qed

lemma for_each_measure:
  assumes "\<And>st x st'. body st x = Inr st' \<Longrightarrow> m st' \<le> (m st :: nat)"
  shows "for_each body st xs = Inr st' \<Longrightarrow> m st' \<le> m st"
proof (induction xs arbitrary: st)
  case Nil
  then show ?case by simp
next
  case (Cons x xs)
  then show ?case using assms by (fastforce split: sum.splits intro: order_trans)
qed

lemma cc_visit_measure:
  "cc_visit c st off = Inr st' \<Longrightarrow>
   2 * unvisited (fst st') + length (snd st') \<le> 2 * unvisited (fst st) + length (snd st)"
  by (cases c; cases st; cases off)
     (auto simp: Let_def split: if_splits dest!: unvisited_mark)

lemma cc_neighbors_measure:
  "for_each (cc_visit c) (s, queue) neighbors = Inr (s', queue') \<Longrightarrow>
   2 * unvisited s' + length queue' \<le> 2 * unvisited s + length queue"
  using for_each_measure [where m = "\<lambda>st. 2 * unvisited (fst st) + length (snd st)"
      and body = "cc_visit c" and st = "(s, queue)" and st' = "(s', queue')"]
    cc_visit_measure by fastforce

termination cc_bfs_loop
  by (relation "measure (\<lambda>(neighbors, s, queue). 2 * unvisited s + length queue)")
     (auto dest!: cc_neighbors_measure)

text \<open>\<open>bfs(start_idx)\<close>: mark the start, then run the queue.\<close>

definition cc_bfs :: "offset list \<Rightarrow> ('a::one) store \<Rightarrow> nat \<Rightarrow> 'a raised + 'a store" where
  "cc_bfs neighbors s start_idx =
     (if start_idx < length (visited s)
      then cc_bfs_loop neighbors (s\<lparr>visited := (visited s)[start_idx := True]\<rparr>) [start_idx]
      else Inl (IndexError, s))"

text \<open>The body of the loop over \<open>range(total_voxels)\<close>, on the store and \<open>components\<close>.\<close>

definition cc_scan :: "offset list \<Rightarrow> ('a::one) store \<times> nat \<Rightarrow> nat \<Rightarrow> 'a raised + ('a store \<times> nat)" where
  "cc_scan neighbors st idx =
     (case st of (s, components) \<Rightarrow>
        if flat (data s) ! idx = 1 \<and> \<not> visited s ! idx then
          (case cc_bfs neighbors s idx of
             Inl e \<Rightarrow> Inl e
           | Inr s' \<Rightarrow> Inr (s', components + 1))
        else Inr (s, components))"

text \<open>
  \<open>find_connected_components\<close> with the store it ends in: the neighbour list is
  selected first, then \<open>visited\<close> is allocated, then the grid is scanned. A run
  that raises gives the error and the store at that moment: \<open>None\<close> when \<open>visited\<close>
  is not allocated yet.
\<close>

definition cc_run :: "('a::one) ndarray \<Rightarrow> int
    \<Rightarrow> (error \<times> 'a store option) + ('a store \<times> nat)" where
  "cc_run d connectivity =
     (case select_neighbors connectivity of
        Inl e \<Rightarrow> Inl (e, None)
      | Inr neighbors \<Rightarrow>
          (let total_voxels = shape_x d * shape_y d * shape_z d;
               s = \<lparr>data = d, visited = replicate total_voxels False\<rparr>
           in case for_each (cc_scan neighbors) (s, 0) [0 ..< total_voxels] of
                Inl (e, s') \<Rightarrow> Inl (e, Some s')
              | Inr r \<Rightarrow> Inr r))"

definition find_connected_components :: "('a::one) ndarray \<Rightarrow> int \<Rightarrow> error + nat" where
  "find_connected_components d connectivity = map_sum fst snd (cc_run d connectivity)"

subsection \<open>Bubbles\<close>

text \<open>
  The body of the loop over \<open>neighbors\<close> in \<open>bfs\<close> of \<open>find_bubbles\<close>: the queue
  holds positions, and a neighbour outside the grid sets \<open>is_boundary\<close>.
\<close>

fun bb_visit :: "int \<times> int \<times> int \<Rightarrow> ('a::zero) store \<times> (int \<times> int \<times> int) list \<times> bool \<Rightarrow> offset
    \<Rightarrow> 'a raised + ('a store \<times> (int \<times> int \<times> int) list \<times> bool)" where
  "bb_visit (cx, cy, cz) (s, queue, is_boundary) (dx, dy, dz) =
     (let nx = cx + dx; ny = cy + dy; nz = cz + dz
      in if in_bounds (data s) nx ny nz then
           (if item3 (data s) (nat nx) (nat ny) (nat nz) = 0 then
              (if ravel (data s) nx ny nz < length (visited s) then
                 (if \<not> visited s ! ravel (data s) nx ny nz
                  then Inr (s\<lparr>visited := (visited s)[ravel (data s) nx ny nz := True]\<rparr>,
                             queue @ [(nx, ny, nz)], is_boundary)
                  else Inr (s, queue, is_boundary))
               else Inl (IndexError, s))
            else Inr (s, queue, is_boundary))
         else Inr (s, queue, True))"

function bb_bfs_loop :: "offset list \<Rightarrow> ('a::zero) store \<Rightarrow> (int \<times> int \<times> int) list \<Rightarrow> bool
    \<Rightarrow> 'a raised + ('a store \<times> bool)" where
  "bb_bfs_loop neighbors s [] is_boundary = Inr (s, \<not> is_boundary)"
| "bb_bfs_loop neighbors s (c # queue) is_boundary =
     (case for_each (bb_visit c) (s, queue, is_boundary) neighbors of
        Inl e \<Rightarrow> Inl e
      | Inr (s', queue', is_boundary') \<Rightarrow> bb_bfs_loop neighbors s' queue' is_boundary')"
  by pat_completeness auto

lemma bb_visit_measure:
  "bb_visit c st off = Inr st' \<Longrightarrow>
   2 * unvisited (fst st') + length (fst (snd st'))
     \<le> 2 * unvisited (fst st) + length (fst (snd st))"
  by (cases c; cases st; cases off)
     (auto simp: Let_def split: if_splits dest!: unvisited_mark)

lemma bb_neighbors_measure:
  "for_each (bb_visit c) (s, queue, b) neighbors = Inr (s', queue', b') \<Longrightarrow>
   2 * unvisited s' + length queue' \<le> 2 * unvisited s + length queue"
  using for_each_measure [where m = "\<lambda>st. 2 * unvisited (fst st) + length (fst (snd st))"
      and body = "bb_visit c" and st = "(s, queue, b)" and st' = "(s', queue', b')"]
    bb_visit_measure by fastforce

termination bb_bfs_loop
  by (relation "measure (\<lambda>(neighbors, s, queue, b). 2 * unvisited s + length queue)")
     (auto dest!: bb_neighbors_measure)

definition bb_bfs :: "offset list \<Rightarrow> ('a::zero) store \<Rightarrow> int \<times> int \<times> int
    \<Rightarrow> 'a raised + ('a store \<times> bool)" where
  "bb_bfs neighbors s start =
     (case start of (start_x, start_y, start_z) \<Rightarrow>
        if ravel (data s) start_x start_y start_z < length (visited s)
        then bb_bfs_loop neighbors
               (s\<lparr>visited := (visited s)[ravel (data s) start_x start_y start_z := True]\<rparr>)
               [(start_x, start_y, start_z)] False
        else Inl (IndexError, s))"

text \<open>\<open>zip(*np.nonzero(data == 0))\<close>: the positions of the zero cells in row-major order.\<close>

definition nonzero_eq0 :: "('a::zero) ndarray \<Rightarrow> (int \<times> int \<times> int) list" where
  "nonzero_eq0 d =
     map (unravel d) (filter (\<lambda>idx. flat d ! idx = 0) [0 ..< shape_x d * shape_y d * shape_z d])"

definition bb_scan :: "offset list \<Rightarrow> ('a::zero) store \<times> nat \<Rightarrow> int \<times> int \<times> int
    \<Rightarrow> 'a raised + ('a store \<times> nat)" where
  "bb_scan neighbors st p =
     (case st of (s, bubbles) \<Rightarrow>
        case p of (x, y, z) \<Rightarrow>
          if \<not> visited s ! ravel (data s) x y z then
            (case bb_bfs neighbors s (x, y, z) of
               Inl e \<Rightarrow> Inl e
             | Inr (s', enclosed) \<Rightarrow> Inr (s', if enclosed then bubbles + 1 else bubbles))
          else Inr (s, bubbles))"

definition bb_run :: "('a::zero) ndarray \<Rightarrow> int
    \<Rightarrow> (error \<times> 'a store option) + ('a store \<times> nat)" where
  "bb_run d connectivity =
     (case select_neighbors connectivity of
        Inl e \<Rightarrow> Inl (e, None)
      | Inr neighbors \<Rightarrow>
          (let s = \<lparr>data = d, visited = replicate (shape_x d * shape_y d * shape_z d) False\<rparr>
           in case for_each (bb_scan neighbors) (s, 0) (nonzero_eq0 d) of
                Inl (e, s') \<Rightarrow> Inl (e, Some s')
              | Inr (s', bubbles) \<Rightarrow> Inr (s', max 0 bubbles)))"

definition find_bubbles :: "('a::zero) ndarray \<Rightarrow> int \<Rightarrow> error + nat" where
  "find_bubbles d connectivity = map_sum fst snd (bb_run d connectivity)"

section \<open>The properties, in the words of the specification\<close>

text \<open>
  The grid invariant: the buffer fits the shape and every cell is 0 or 1.
\<close>

definition binary_grid :: "('a::zero_neq_one) ndarray \<Rightarrow> bool" where
  "binary_grid d \<longleftrightarrow> wf_ndarray d \<and> (\<forall>v \<in> set (flat d). v = 0 \<or> v = 1)"

text \<open>
  The value at a position of the grid padded by one layer of zeros, positions outside the
  grid included, and the sum of the six face-adjacent values.
\<close>

definition padded_value :: "u8 ndarray \<Rightarrow> int \<Rightarrow> int \<Rightarrow> int \<Rightarrow> nat" where
  "padded_value d x y z =
     (if in_bounds d x y z then unat (item3 d (nat x) (nat y) (nat z)) else 0)"

definition six_neighbor_total :: "u8 ndarray \<Rightarrow> nat \<Rightarrow> nat \<Rightarrow> nat \<Rightarrow> nat" where
  "six_neighbor_total d i j k =
     padded_value d (int i - 1) (int j) (int k) + padded_value d (int i + 1) (int j) (int k)
     + padded_value d (int i) (int j - 1) (int k) + padded_value d (int i) (int j + 1) (int k)
     + padded_value d (int i) (int j) (int k - 1) + padded_value d (int i) (int j) (int k + 1)"

text \<open>A position holds a solid voxel: it is inside the grid and its cell is 1.\<close>

definition solid_at :: "u8 ndarray \<Rightarrow> int \<Rightarrow> int \<Rightarrow> int \<Rightarrow> bool" where
  "solid_at d x y z \<longleftrightarrow> in_bounds d x y z \<and> item3 d (nat x) (nat y) (nat z) = 1"

text \<open>
  The number of the six face directions of voxel \<open>(i, j, k)\<close> not occupied by a
  solid neighbour, and its sum over the surface voxels.
\<close>

definition exposed_directions :: "u8 ndarray \<Rightarrow> nat \<Rightarrow> nat \<Rightarrow> nat \<Rightarrow> nat" where
  "exposed_directions d i j k =
     length [(dx, dy, dz) \<leftarrow> NEIGHBORS_6. \<not> solid_at d (int i + dx) (int j + dy) (int k + dz)]"

definition exposed_face_total :: "u8 ndarray \<Rightarrow> nat" where
  "exposed_face_total d =
     sum_list [exposed_directions d i j k.
               (i, j, k) \<leftarrow> positions (shape_x d) (shape_y d) (shape_z d),
               item3 (surface_voxels d) i j k]"

text \<open>
  The element at position \<open>(a, b, c)\<close> of the copy of a grid padded by one layer
  of zeros (positions counted in the padded array).
\<close>

definition pv :: "('a::zero) ndarray \<Rightarrow> nat \<Rightarrow> nat \<Rightarrow> nat \<Rightarrow> 'a" where
  "pv d a b c = (if 1 \<le> a \<and> a \<le> shape_x d \<and> 1 \<le> b \<and> b \<le> shape_y d \<and> 1 \<le> c \<and> c \<le> shape_z d
     then item3 d (a - 1) (b - 1) (c - 1) else 0)"

text \<open>Grids for the examples.\<close>

definition bar :: "u8 ndarray" where
  "bar = \<lparr>shape_x = 1, shape_y = 1, shape_z = 3, flat = [1, 1, 0]\<rparr>"

definition corner_grid :: "nat ndarray" where
  "corner_grid = \<lparr>shape_x = 2, shape_y = 1, shape_z = 2, flat = [1, 0, 1, 1]\<rparr>"

section \<open>Voxels, adjacency and connected sets\<close>

text \<open>
  A position is a triple of integers; \<open>inb\<close> says that it lies in the grid, \<open>rav\<close>
  is its offset in the buffer, \<open>cell\<close> its value, and \<open>shift\<close> moves it by an offset.
\<close>

type_synonym pos = "int \<times> int \<times> int"

definition inb :: "'a ndarray \<Rightarrow> pos \<Rightarrow> bool" where
  "inb d p = (case p of (x, y, z) \<Rightarrow> in_bounds d x y z)"

definition rav :: "'a ndarray \<Rightarrow> pos \<Rightarrow> nat" where
  "rav d p = (case p of (x, y, z) \<Rightarrow> ravel d x y z)"

definition cell :: "'a ndarray \<Rightarrow> pos \<Rightarrow> 'a" where
  "cell d p = (case p of (x, y, z) \<Rightarrow> item3 d (nat x) (nat y) (nat z))"

definition shift :: "pos \<Rightarrow> offset \<Rightarrow> pos" where
  "shift p off = (case p of (x, y, z) \<Rightarrow> case off of (dx, dy, dz) \<Rightarrow> (x + dx, y + dy, z + dz))"

definition voxel_count :: "'a ndarray \<Rightarrow> nat" where
  "voxel_count d = shape_x d * shape_y d * shape_z d"

text \<open>The voxels of a grid that hold the value \<open>v\<close>: solid for 1, empty for 0.\<close>

definition voxels_with :: "'a \<Rightarrow> 'a ndarray \<Rightarrow> pos set" where
  "voxels_with v d = {p. inb d p \<and> cell d p = v}"

text \<open>
  The adjacency models of the specification, as sets of offsets: for 6 the offsets
  with \<open>\<plusminus>1\<close> on exactly one axis, for 18 the non-zero offsets with coordinates in
  \<open>{-1, 0, 1}\<close> and Manhattan norm at most 2, for 26 all non-zero offsets with
  coordinates in \<open>{-1, 0, 1}\<close>.
\<close>

definition offsets :: "int \<Rightarrow> offset set" where
  "offsets m =
     (if m = 6 then
        {(x, y, z). \<bar>x\<bar> = 1 \<and> y = 0 \<and> z = 0 \<or> x = 0 \<and> \<bar>y\<bar> = 1 \<and> z = 0
                    \<or> x = 0 \<and> y = 0 \<and> \<bar>z\<bar> = 1}
      else if m = 18 then
        {(x, y, z). x \<in> {-1, 0, 1} \<and> y \<in> {-1, 0, 1} \<and> z \<in> {-1, 0, 1}
                    \<and> (x, y, z) \<noteq> (0, 0, 0) \<and> \<bar>x\<bar> + \<bar>y\<bar> + \<bar>z\<bar> \<le> 2}
      else if m = 26 then
        {(x, y, z). x \<in> {-1, 0, 1} \<and> y \<in> {-1, 0, 1} \<and> z \<in> {-1, 0, 1}
                    \<and> (x, y, z) \<noteq> (0, 0, 0)}
      else {})"

text \<open>
  Two voxels of a set \<open>T\<close> are joined by a step when one is the other moved by an
  offset of \<open>N\<close>. A set is connected when any two of its voxels are joined by steps
  inside the set, and a maximal connected set of \<open>A\<close> is a non-empty connected subset
  of \<open>A\<close> that no larger connected subset of \<open>A\<close> contains.
\<close>

definition step_rel :: "offset set \<Rightarrow> pos set \<Rightarrow> (pos \<times> pos) set" where
  "step_rel N T = {(p, q). p \<in> T \<and> q \<in> T \<and> (\<exists>off \<in> N. q = shift p off)}"

definition connected_in :: "offset set \<Rightarrow> pos set \<Rightarrow> bool" where
  "connected_in N S \<longleftrightarrow> (\<forall>p \<in> S. \<forall>q \<in> S. (p, q) \<in> (step_rel N S)\<^sup>*)"

definition maximal_connected :: "offset set \<Rightarrow> pos set \<Rightarrow> pos set \<Rightarrow> bool" where
  "maximal_connected N A C \<longleftrightarrow>
     C \<noteq> {} \<and> C \<subseteq> A \<and> connected_in N C
     \<and> (\<forall>C'. C \<subseteq> C' \<and> C' \<subseteq> A \<and> connected_in N C' \<longrightarrow> C' = C)"

text \<open>A voxel touches the boundary when one of its neighbours lies outside the grid.\<close>

definition touches :: "'a ndarray \<Rightarrow> offset set \<Rightarrow> pos \<Rightarrow> bool" where
  "touches d N p \<longleftrightarrow> (\<exists>off \<in> N. \<not> inb d (shift p off))"

subsection \<open>Notions of the proofs\<close>

text \<open>
  The set of positions that \<open>visited\<close> marks; a store that still holds the grid
  \<open>d\<close> and a \<open>visited\<close> array of its size; the voxels reachable from \<open>p\<close>; the
  state of a scan that has started from the voxels \<open>D\<close>; and the classes of \<open>D\<close>
  without a voxel on the boundary.
\<close>

definition visited_set :: "'a store \<Rightarrow> pos set" where
  "visited_set s = {p. inb (data s) p \<and> visited s ! rav (data s) p}"

definition store_ok :: "'a ndarray \<Rightarrow> 'a store \<Rightarrow> bool" where
  "store_ok d s \<longleftrightarrow> data s = d \<and> length (visited s) = voxel_count d"

definition neg :: "offset \<Rightarrow> offset" where
  "neg off = (case off of (dx, dy, dz) \<Rightarrow> (- dx, - dy, - dz))"

definition symmetric_offsets :: "offset set \<Rightarrow> bool" where
  "symmetric_offsets N \<longleftrightarrow> (\<forall>off \<in> N. neg off \<in> N)"

definition class_of :: "offset set \<Rightarrow> pos set \<Rightarrow> pos \<Rightarrow> pos set" where
  "class_of N T p = (step_rel N T)\<^sup>* `` {p}"

definition scanned :: "'a ndarray \<Rightarrow> offset set \<Rightarrow> pos set \<Rightarrow> 'a store \<Rightarrow> pos set \<Rightarrow> bool" where
  "scanned d N T s D \<longleftrightarrow>
     store_ok d s \<and> D \<subseteq> T \<and> visited_set s = (step_rel N T)\<^sup>* `` D"

definition enclosed_classes :: "'a ndarray \<Rightarrow> offset set \<Rightarrow> pos set \<Rightarrow> pos set \<Rightarrow> pos set set" where
  "enclosed_classes d N T D = {C \<in> class_of N T ` D. \<not> (\<exists>x \<in> C. touches d N x)}"

subsection \<open>Example grids\<close>

text \<open>
  Two solid voxels at opposite corners of a \<open>2\<times>2\<times>2\<close> grid; the \<open>3\<times>3\<times>3\<close> grid
  of ones with a zero at the centre; the \<open>3\<times>3\<times>3\<close> grid of zeros.
\<close>

definition diagonal_pair :: "int ndarray" where
  "diagonal_pair = \<lparr>shape_x = 2, shape_y = 2, shape_z = 2, flat = [1, 0, 0, 0, 0, 0, 0, 1]\<rparr>"

definition hollow_cube :: "int ndarray" where
  "hollow_cube = tabulate3 3 3 3 (\<lambda>i j k. if i = 1 \<and> j = 1 \<and> k = 1 then 0 else 1)"

definition empty_cube :: "int ndarray" where
  "empty_cube = zeros 3 3 3"

section \<open>Index arithmetic and array operations\<close>

lemma offset_lt:
  fixes i j k :: nat
  assumes "i < sx" "j < sy" "k < sz"
  shows "i * sy * sz + j * sz + k < sx * sy * sz"
proof -
  have "j * sz + k < sy * sz"
  proof -
    have "j * sz + k < j * sz + sz" using assms by simp
    also have "\<dots> = (j + 1) * sz" by simp
    also have "\<dots> \<le> sy * sz" using assms by (intro mult_le_mono1) simp
    finally show ?thesis .
  qed
  then have "i * (sy * sz) + (j * sz + k) < i * (sy * sz) + sy * sz" by simp
  also have "\<dots> = (i + 1) * (sy * sz)" by simp
  also have "\<dots> \<le> sx * (sy * sz)" using assms by (intro mult_le_mono1) simp
  finally show ?thesis by (simp add: mult.assoc add.assoc)
qed

lemma offset_div:
  fixes i j k :: nat
  assumes "j < sy" "k < sz"
  shows "(i * sy * sz + j * sz + k) div (sy * sz) = i"
    and "(i * sy * sz + j * sz + k) mod (sy * sz) div sz = j"
    and "(i * sy * sz + j * sz + k) mod sz = k"
proof -
  have lt: "j * sz + k < sy * sz"
  proof -
    have "j * sz + k < (j + 1) * sz" using assms by simp
    also have "\<dots> \<le> sy * sz" using assms by (intro mult_le_mono1) simp
    finally show ?thesis .
  qed
  have e: "i * sy * sz + j * sz + k = i * (sy * sz) + (j * sz + k)"
    by (simp add: mult.assoc add.assoc)
  show "(i * sy * sz + j * sz + k) div (sy * sz) = i"
    unfolding e using lt assms by simp
  have m: "(i * sy * sz + j * sz + k) mod (sy * sz) = j * sz + k"
    unfolding e using lt assms by simp
  show "(i * sy * sz + j * sz + k) mod (sy * sz) div sz = j"
    unfolding m using assms by simp
  have "(i * sy * sz + j * sz + k) = (i * sy + j) * sz + k"
    by (simp add: algebra_simps)
  then show "(i * sy * sz + j * sz + k) mod sz = k"
    using assms by simp
qed

lemma tabulate3_shape [simp]:
  "shape_x (tabulate3 sx sy sz f) = sx"
  "shape_y (tabulate3 sx sy sz f) = sy"
  "shape_z (tabulate3 sx sy sz f) = sz"
  by (simp_all add: tabulate3_def)

lemma wf_tabulate3 [simp]: "wf_ndarray (tabulate3 sx sy sz f)"
  by (simp add: wf_ndarray_def tabulate3_def)

lemma item3_tabulate3:
  assumes "i < sx" "j < sy" "k < sz"
  shows "item3 (tabulate3 sx sy sz f) i j k = f i j k"
  using offset_lt [OF assms] offset_div [OF assms(2,3), of i]
  by (simp add: item3_def tabulate3_def)

lemma index_div_lt:
  fixes idx :: nat
  assumes "idx < sx * sy * sz"
  shows "idx div (sy * sz) < sx" "idx mod (sy * sz) div sz < sy" "idx mod sz < sz"
proof -
  have pos: "0 < sy" "0 < sz" using assms by (cases sy; cases sz; simp)+
  have "idx < sx * (sy * sz)" using assms by (simp add: mult.assoc)
  then show "idx div (sy * sz) < sx"
    by (rule less_mult_imp_div_less)
  have "idx mod (sy * sz) < sy * sz" using pos by simp
  then show "idx mod (sy * sz) div sz < sy"
    using pos by (simp add: less_mult_imp_div_less mult.commute)
  show "idx mod sz < sz" using pos by simp
qed

lemma tabulate3_cong:
  assumes "\<And>i j k. i < sx \<Longrightarrow> j < sy \<Longrightarrow> k < sz \<Longrightarrow> f i j k = g i j k"
  shows "tabulate3 sx sy sz f = tabulate3 sx sy sz g"
  unfolding tabulate3_def using assms index_div_lt by auto

lemma item3_slice3:
  "i < snd xr - fst xr \<Longrightarrow> j < snd yr - fst yr \<Longrightarrow> k < snd zr - fst zr \<Longrightarrow>
   item3 (slice3 a xr yr zr) i j k = item3 a (fst xr + i) (fst yr + j) (fst zr + k)"
  by (simp add: slice3_def item3_tabulate3)

lemma slice3_shape [simp]:
  "shape_x (slice3 a xr yr zr) = snd xr - fst xr"
  "shape_y (slice3 a xr yr zr) = snd yr - fst yr"
  "shape_z (slice3 a xr yr zr) = snd zr - fst zr"
  by (simp_all add: slice3_def)

lemma add3_shape [simp]:
  "shape_x (add3 a b) = shape_x a" "shape_y (add3 a b) = shape_y a" "shape_z (add3 a b) = shape_z a"
  by (simp_all add: add3_def)

lemma item3_add3:
  "i < shape_x a \<Longrightarrow> j < shape_y a \<Longrightarrow> k < shape_z a \<Longrightarrow>
   item3 (add3 a b) i j k = item3 a i j k + item3 b i j k"
  by (simp add: add3_def item3_tabulate3)

lemma roll3_shape [simp]:
  "shape_x (roll3 a s ax) = shape_x a" "shape_y (roll3 a s ax) = shape_y a" "shape_z (roll3 a s ax) = shape_z a"
  by (simp_all add: roll3_def)

lemma item3_roll3:
  "i < shape_x a \<Longrightarrow> j < shape_y a \<Longrightarrow> k < shape_z a \<Longrightarrow>
   item3 (roll3 a s ax) i j k =
     (if ax = 0 then item3 a (roll_index s (shape_x a) i) j k
      else if ax = 1 then item3 a i (roll_index s (shape_y a) j) k
      else item3 a i j (roll_index s (shape_z a) k))"
  by (simp add: roll3_def item3_tabulate3)

lemma padded_data_shape [simp]:
  "shape_x (padded_data d) = shape_x d + 2"
  "shape_y (padded_data d) = shape_y d + 2"
  "shape_z (padded_data d) = shape_z d + 2"
  by (simp_all add: padded_data_def set_inner_def zeros_def)

lemma pad1_shape [simp]:
  "shape_x (pad1 d) = shape_x d + 2"
  "shape_y (pad1 d) = shape_y d + 2"
  "shape_z (pad1 d) = shape_z d + 2"
  by (simp_all add: pad1_def)

lemma item3_padded_data:
  assumes "a < shape_x d + 2" "b < shape_y d + 2" "c < shape_z d + 2"
  shows "item3 (padded_data d) a b c = pv d a b c"
  using assms
  by (auto simp add: padded_data_def set_inner_def item3_tabulate3 zeros_def pv_def)

lemma item3_pad1:
  assumes "a < shape_x d + 2" "b < shape_y d + 2" "c < shape_z d + 2"
  shows "item3 (pad1 d) a b c = pv d a b c"
  using assms by (auto simp add: pad1_def item3_tabulate3 pv_def)

lemma item3_neighbor_sum:
  assumes "i < shape_x d" "j < shape_y d" "k < shape_z d"
  shows "item3 (neighbor_sum d) i j k =
     pv d i (j + 1) (k + 1) + pv d (i + 2) (j + 1) (k + 1)
     + pv d (i + 1) j (k + 1) + pv d (i + 1) (j + 2) (k + 1)
     + pv d (i + 1) (j + 1) k + pv d (i + 1) (j + 1) (k + 2)"
  using assms
  by (simp add: neighbor_sum_def Let_def item3_add3 item3_slice3 upto_m2_def from_2_def inner_def
      item3_padded_data)

lemma set_positions:
  "set (positions sx sy sz) = {(i, j, k). i < sx \<and> j < sy \<and> k < sz}"
  by (force simp: positions_def)

lemma item3_mem:
  assumes "wf_ndarray d" "i < shape_x d" "j < shape_y d" "k < shape_z d"
  shows "item3 d i j k \<in> set (flat d)"
  using offset_lt [OF assms(2-4)] assms(1) by (simp add: item3_def wf_ndarray_def)

lemma pv_binary:
  assumes "binary_grid d"
  shows "pv d a b c = 0 \<or> pv d a b c = 1"
proof (cases "1 \<le> a \<and> a \<le> shape_x d \<and> 1 \<le> b \<and> b \<le> shape_y d \<and> 1 \<le> c \<and> c \<le> shape_z d")
  case True
  then have "item3 d (a - 1) (b - 1) (c - 1) \<in> set (flat d)"
    using assms by (intro item3_mem) (auto simp: binary_grid_def)
  then show ?thesis using True assms by (auto simp: pv_def binary_grid_def)
next
  case False
  then show ?thesis by (auto simp: pv_def)
qed

lemma padded_value_pv:
  "padded_value d (int a - 1) (int b - 1) (int c - 1) = unat (pv d a b c)"
proof -
  have "in_bounds d (int a - 1) (int b - 1) (int c - 1) \<longleftrightarrow>
        1 \<le> a \<and> a \<le> shape_x d \<and> 1 \<le> b \<and> b \<le> shape_y d \<and> 1 \<le> c \<and> c \<le> shape_z d"
    unfolding in_bounds_def by auto
  moreover have "nat (int a - 1) = a - 1" "nat (int b - 1) = b - 1" "nat (int c - 1) = c - 1"
    by auto
  ultimately show ?thesis by (simp add: padded_value_def pv_def)
qed

lemma padded_value_shift:
  "padded_value d (int a) (int b) (int c) = unat (pv d (a + 1) (b + 1) (c + 1))"
  "padded_value d (int a - 1) (int b) (int c) = unat (pv d a (b + 1) (c + 1))"
  "padded_value d (int a + 1) (int b) (int c) = unat (pv d (a + 2) (b + 1) (c + 1))"
  "padded_value d (int a) (int b - 1) (int c) = unat (pv d (a + 1) b (c + 1))"
  "padded_value d (int a) (int b + 1) (int c) = unat (pv d (a + 1) (b + 2) (c + 1))"
  "padded_value d (int a) (int b) (int c - 1) = unat (pv d (a + 1) (b + 1) c)"
  "padded_value d (int a) (int b) (int c + 1) = unat (pv d (a + 1) (b + 1) (c + 2))"
  using padded_value_pv [of d "a + 1" "b + 1" "c + 1"]
    padded_value_pv [of d a "b + 1" "c + 1"] padded_value_pv [of d "a + 2" "b + 1" "c + 1"]
    padded_value_pv [of d "a + 1" b "c + 1"] padded_value_pv [of d "a + 1" "b + 2" "c + 1"]
    padded_value_pv [of d "a + 1" "b + 1" c] padded_value_pv [of d "a + 1" "b + 1" "c + 2"]
  by (simp_all add: add.commute)

lemma six_neighbor_total_pv:
  "six_neighbor_total d i j k =
     unat (pv d i (j + 1) (k + 1)) + unat (pv d (i + 2) (j + 1) (k + 1))
     + unat (pv d (i + 1) j (k + 1)) + unat (pv d (i + 1) (j + 2) (k + 1))
     + unat (pv d (i + 1) (j + 1) k) + unat (pv d (i + 1) (j + 1) (k + 2))"
  unfolding six_neighbor_total_def padded_value_shift ..

lemma u8_six_sum:
  fixes a b c e f g :: u8
  assumes "a = 0 \<or> a = 1" "b = 0 \<or> b = 1" "c = 0 \<or> c = 1"
    "e = 0 \<or> e = 1" "f = 0 \<or> f = 1" "g = 0 \<or> g = 1"
  shows "a + b + c + e + f + g < 6 \<longleftrightarrow> unat a + unat b + unat c + unat e + unat f + unat g < 6"
  using assms by (elim disjE) simp_all

lemma surface_voxels_item:
  assumes "binary_grid d" "i < shape_x d" "j < shape_y d" "k < shape_z d"
  shows "item3 (surface_voxels d) i j k \<longleftrightarrow> item3 d i j k = 1 \<and> six_neighbor_total d i j k < 6"
proof -
  have "item3 (surface_voxels d) i j k \<longleftrightarrow> item3 d i j k = 1 \<and> item3 (neighbor_sum d) i j k < 6"
    using assms(2-4) by (simp add: surface_voxels_def item3_tabulate3)
  also have "item3 (neighbor_sum d) i j k < 6 \<longleftrightarrow> six_neighbor_total d i j k < 6"
    unfolding item3_neighbor_sum [OF assms(2-4)] six_neighbor_total_pv
    by (intro u8_six_sum pv_binary assms(1))
  finally show ?thesis .
qed

lemma astype_shape [simp]:
  "shape_x (astype f a) = shape_x a" "shape_y (astype f a) = shape_y a"
  "shape_z (astype f a) = shape_z a"
  by (simp_all add: astype_def)

lemma item3_astype:
  assumes "wf_ndarray a" "i < shape_x a" "j < shape_y a" "k < shape_z a"
  shows "item3 (astype f a) i j k = f (item3 a i j k)"
  using offset_lt [OF assms(2-4)] assms(1)
  by (simp add: item3_def astype_def wf_ndarray_def)

lemma pv_astype:
  assumes "wf_ndarray a" "f 0 = 0"
  shows "pv (astype f a) x y z = f (pv a x y z)"
  using assms by (auto simp: pv_def item3_astype)

lemma complete_neighbor_sum_shape [simp]:
  "shape_x (complete_neighbor_sum d) = shape_x d + 2"
  "shape_y (complete_neighbor_sum d) = shape_y d + 2"
  "shape_z (complete_neighbor_sum d) = shape_z d + 2"
  by (simp_all add: complete_neighbor_sum_def Let_def)

lemma roll_index_Suc:
  "p < n \<Longrightarrow> roll_index 1 (Suc (Suc n)) (Suc p) = p"
  "p < n \<Longrightarrow> roll_index (-1) (Suc (Suc n)) (Suc p) = Suc (Suc p)"
  by (simp_all add: roll_index_def nat_add_distrib)

lemma item3_complete_neighbor_sum:
  assumes "i < shape_x d" "j < shape_y d" "k < shape_z d"
  shows "item3 (complete_neighbor_sum d) (Suc i) (Suc j) (Suc k) =
     pv d i (j + 1) (k + 1) + pv d (i + 2) (j + 1) (k + 1)
     + pv d (i + 1) j (k + 1) + pv d (i + 1) (j + 2) (k + 1)
     + pv d (i + 1) (j + 1) k + pv d (i + 1) (j + 1) (k + 2)"
  using assms
  by (simp add: complete_neighbor_sum_def Let_def item3_add3 item3_roll3 roll_index_Suc
      item3_pad1)

lemma item3_perimeter_sum:
  assumes "i < shape_x d" "j < shape_y d" "k < shape_z d"
  shows "item3 (slice3 (complete_neighbor_sum d) (inner (shape_x (complete_neighbor_sum d)))
            (inner (shape_y (complete_neighbor_sum d))) (inner (shape_z (complete_neighbor_sum d)))) i j k =
     pv d i (j + 1) (k + 1) + pv d (i + 2) (j + 1) (k + 1)
     + pv d (i + 1) j (k + 1) + pv d (i + 1) (j + 2) (k + 1)
     + pv d (i + 1) (j + 1) k + pv d (i + 1) (j + 1) (k + 2)"
  using assms item3_complete_neighbor_sum [OF assms]
  by (simp add: item3_slice3 inner_def)

lemma six_sum_u8_real:
  fixes a b c e f g :: nat
  assumes "a = 0 \<or> a = 1" "b = 0 \<or> b = 1" "c = 0 \<or> c = 1"
    "e = 0 \<or> e = 1" "f = 0 \<or> f = 1" "g = 0 \<or> g = 1"
  shows "(of_nat a + of_nat b + of_nat c + of_nat e + of_nat f + of_nat g :: u8) < 6
     \<longleftrightarrow> (of_nat a + of_nat b + of_nat c + of_nat e + of_nat f + of_nat g :: real) < 6"
  using assms by (elim disjE) simp_all

section \<open>The neighbour tables\<close>

lemma N18_list: "NEIGHBORS_18 =
  [(-1,-1,0), (-1,0,-1), (-1,0,0), (-1,0,1), (-1,1,0),
   (0,-1,-1), (0,-1,0), (0,-1,1), (0,0,-1), (0,0,1), (0,1,-1), (0,1,0), (0,1,1),
   (1,-1,0), (1,0,-1), (1,0,0), (1,0,1), (1,1,0)]"
  by (simp add: NEIGHBORS_18_def)

lemma N26_list: "NEIGHBORS_26 =
  [(-1,-1,-1), (-1,-1,0), (-1,-1,1), (-1,0,-1), (-1,0,0), (-1,0,1), (-1,1,-1), (-1,1,0), (-1,1,1),
   (0,-1,-1), (0,-1,0), (0,-1,1), (0,0,-1), (0,0,1), (0,1,-1), (0,1,0), (0,1,1),
   (1,-1,-1), (1,-1,0), (1,-1,1), (1,0,-1), (1,0,0), (1,0,1), (1,1,-1), (1,1,0), (1,1,1)]"
  by (simp add: NEIGHBORS_26_def)

lemma set_NEIGHBORS_26: "set NEIGHBORS_26 = {(x, y, z). x \<in> {-1, 0, 1} \<and> y \<in> {-1, 0, 1} \<and> z \<in> {-1, 0, 1}
        \<and> (x, y, z) \<noteq> (0, 0, 0)}"  (is "?L = ?R")
proof
  show "?L \<subseteq> ?R" unfolding N26_list by simp
  show "?R \<subseteq> ?L"
  proof
    fix p assume "p \<in> ?R"
    then obtain x y z where p: "p = (x, y, z)" and
      x: "x = -1 \<or> x = 0 \<or> x = 1" and y: "y = -1 \<or> y = 0 \<or> y = 1" and z: "z = -1 \<or> z = 0 \<or> z = 1"
      and nz: "(x, y, z) \<noteq> (0, 0, 0)" by auto
    show "p \<in> ?L" unfolding p N26_list using x y z nz by (elim disjE) simp_all
  qed
qed

lemma set_NEIGHBORS_18: "set NEIGHBORS_18 = {(x, y, z). x \<in> {-1, 0, 1} \<and> y \<in> {-1, 0, 1} \<and> z \<in> {-1, 0, 1}
        \<and> (x, y, z) \<noteq> (0, 0, 0) \<and> \<bar>x\<bar> + \<bar>y\<bar> + \<bar>z\<bar> \<le> 2}"  (is "?L = ?R")
proof
  show "?L \<subseteq> ?R" unfolding N18_list by simp
  show "?R \<subseteq> ?L"
  proof
    fix p assume "p \<in> ?R"
    then obtain x y z where p: "p = (x, y, z)" and
      x: "x = -1 \<or> x = 0 \<or> x = 1" and y: "y = -1 \<or> y = 0 \<or> y = 1" and z: "z = -1 \<or> z = 0 \<or> z = 1"
      and nz: "(x, y, z) \<noteq> (0, 0, 0)" and m: "\<bar>x\<bar> + \<bar>y\<bar> + \<bar>z\<bar> \<le> 2" by auto
    show "p \<in> ?L" unfolding p N18_list using x y z nz m by (elim disjE) simp_all
  qed
qed

lemma set_NEIGHBORS_6: "set NEIGHBORS_6 =
    {(x, y, z). \<bar>x\<bar> = 1 \<and> y = 0 \<and> z = 0 \<or> x = 0 \<and> \<bar>y\<bar> = 1 \<and> z = 0
                \<or> x = 0 \<and> y = 0 \<and> \<bar>z\<bar> = 1}"  (is "?L = ?R")
proof
  show "?L \<subseteq> ?R" unfolding NEIGHBORS_6_def by simp
  show "?R \<subseteq> ?L"
  proof
    fix p :: offset assume "p \<in> ?R"
    then obtain x y z where p: "p = (x, y, z)" and m: "\<bar>x\<bar> = 1 \<and> y = 0 \<and> z = 0 \<or> x = 0 \<and> \<bar>y\<bar> = 1 \<and> z = 0
                \<or> x = 0 \<and> y = 0 \<and> \<bar>z\<bar> = 1" by auto
    have "(x = 1 \<or> x = -1) \<and> y = 0 \<and> z = 0 \<or> x = 0 \<and> (y = 1 \<or> y = -1) \<and> z = 0
          \<or> x = 0 \<and> y = 0 \<and> (z = 1 \<or> z = -1)"
      using m by arith
    then show "p \<in> ?L" unfolding p NEIGHBORS_6_def by auto
  qed
qed

lemma corner_offsets: "{(x, y, z). \<bar>x :: int\<bar> = 1 \<and> \<bar>y :: int\<bar> = 1 \<and> \<bar>z :: int\<bar> = 1}
      = {(1,1,1), (1,1,-1), (1,-1,1), (1,-1,-1), (-1,1,1), (-1,1,-1), (-1,-1,1), (-1,-1,-1)}" (is "?L = ?R")
proof
  show "?R \<subseteq> ?L" by simp
  show "?L \<subseteq> ?R"
  proof
    fix p :: offset assume "p \<in> ?L"
    then obtain x y z where p: "p = (x, y, z)" and
      "\<bar>x\<bar> = 1" "\<bar>y\<bar> = 1" "\<bar>z\<bar> = 1" by auto
    then have "x = 1 \<or> x = -1" "y = 1 \<or> y = -1" "z = 1 \<or> z = -1" by arith+
    then show "p \<in> ?R" unfolding p by (elim disjE) simp_all
  qed
qed

text \<open>
  C8. \<open>NEIGHBORS_6\<close> holds exactly the six offsets with \<open>\<plusminus>1\<close> on one axis and 0 on
  the others; \<open>NEIGHBORS_18\<close> holds exactly the non-zero offsets with coordinates in
  \<open>{-1, 0, 1}\<close> and Manhattan norm at most 2, eighteen of them, which are the offsets of
  \<open>NEIGHBORS_26\<close> without the eight corners; \<open>NEIGHBORS_26\<close> holds exactly the 26
  non-zero offsets with coordinates in \<open>{-1, 0, 1}\<close>. No table repeats an offset.
  (The two operator classes of the source carry textually equal copies of the tables.)
\<close>

theorem neighbor_tables:
  "set NEIGHBORS_6 =
     {(x, y, z). \<bar>x\<bar> = 1 \<and> y = 0 \<and> z = 0 \<or> x = 0 \<and> \<bar>y\<bar> = 1 \<and> z = 0
                 \<or> x = 0 \<and> y = 0 \<and> \<bar>z\<bar> = 1}
   \<and> distinct NEIGHBORS_6 \<and> length NEIGHBORS_6 = 6
   \<and> set NEIGHBORS_18 = {(x, y, z). x \<in> {-1, 0, 1} \<and> y \<in> {-1, 0, 1} \<and> z \<in> {-1, 0, 1}
        \<and> (x, y, z) \<noteq> (0, 0, 0) \<and> \<bar>x\<bar> + \<bar>y\<bar> + \<bar>z\<bar> \<le> 2}
   \<and> distinct NEIGHBORS_18 \<and> length NEIGHBORS_18 = 18
   \<and> set NEIGHBORS_18 = set NEIGHBORS_26 - {(x, y, z). \<bar>x\<bar> = 1 \<and> \<bar>y\<bar> = 1 \<and> \<bar>z\<bar> = 1}
   \<and> card {(x, y, z). \<bar>x :: int\<bar> = 1 \<and> \<bar>y :: int\<bar> = 1 \<and> \<bar>z :: int\<bar> = 1} = 8
   \<and> set NEIGHBORS_26 = {(x, y, z). x \<in> {-1, 0, 1} \<and> y \<in> {-1, 0, 1} \<and> z \<in> {-1, 0, 1}
        \<and> (x, y, z) \<noteq> (0, 0, 0)}
   \<and> distinct NEIGHBORS_26 \<and> length NEIGHBORS_26 = 26"
proof -
  have d6: "distinct NEIGHBORS_6" "length NEIGHBORS_6 = 6"
    by (simp_all add: NEIGHBORS_6_def)
  have d18: "distinct NEIGHBORS_18" "length NEIGHBORS_18 = 18"
    unfolding N18_list by simp_all
  have d26: "distinct NEIGHBORS_26" "length NEIGHBORS_26 = 26"
    unfolding N26_list by simp_all
  have diff: "set NEIGHBORS_18 = set NEIGHBORS_26 - {(x, y, z). \<bar>x\<bar> = 1 \<and> \<bar>y\<bar> = 1 \<and> \<bar>z\<bar> = 1}"
    unfolding corner_offsets unfolding N18_list N26_list by (simp add: insert_Diff_if)
  have c: "card {(x, y, z). \<bar>x :: int\<bar> = 1 \<and> \<bar>y :: int\<bar> = 1 \<and> \<bar>z :: int\<bar> = 1} = 8"
    unfolding corner_offsets by simp
  show ?thesis
    by (intro conjI set_NEIGHBORS_6 set_NEIGHBORS_18 set_NEIGHBORS_26 d6 d18 d26 diff c)
qed

section \<open>Invalid connectivity\<close>

text \<open>
  A run that fails gives the error together with the store reached when it was raised:
  \<open>None\<close> while \<open>visited\<close> is not allocated, \<open>Some\<close> of the store from the allocation
  on. Past the selection of the neighbour list a store always exists.
\<close>

lemma cc_run_store_after_selection:
  "cc_run d connectivity = Inl (e, None) \<Longrightarrow> connectivity \<notin> {6, 18, 26}"
  by (auto simp: cc_run_def select_neighbors_def Let_def split: sum.splits if_splits)

lemma bb_run_store_after_selection:
  "bb_run d connectivity = Inl (e, None) \<Longrightarrow> connectivity \<notin> {6, 18, 26}"
  by (auto simp: bb_run_def select_neighbors_def Let_def split: sum.splits if_splits)

text \<open>
  C7. For a connectivity other than 6, 18 and 26, \<open>find_connected_components\<close> and
  \<open>find_bubbles\<close> fail with \<open>ValueError\<close> on every grid, and the error is raised
  with no store: at that moment no \<open>visited\<close> array has been allocated, so no voxel
  has been visited.
\<close>

theorem invalid_connectivity:
  "connectivity \<notin> {6, 18, 26} \<Longrightarrow>
     cc_run d connectivity = Inl (ValueError, None)
     \<and> find_connected_components d connectivity = Inl ValueError
     \<and> bb_run d' connectivity = Inl (ValueError, None)
     \<and> find_bubbles d' connectivity = Inl ValueError"
  by (simp add: cc_run_def bb_run_def find_connected_components_def find_bubbles_def
      select_neighbors_def)

theorem invalid_connectivity_witness:
  "(7::int) \<notin> {6, 18, 26}
   \<and> cc_run (ones 2 2 2 :: int ndarray) 7 = Inl (ValueError, None)
   \<and> find_connected_components (ones 2 2 2 :: int ndarray) 7 = Inl ValueError
   \<and> bb_run (zeros 2 2 2 :: int ndarray) 7 = Inl (ValueError, None)
   \<and> find_bubbles (zeros 2 2 2 :: int ndarray) 7 = Inl ValueError"
  using invalid_connectivity [of 7 "ones 2 2 2 :: int ndarray" "zeros 2 2 2 :: int ndarray"] by simp

section \<open>Face cancellation\<close>

text \<open>
  C1. On the bar of two solid voxels along the third axis both voxels are surface
  voxels, the top face of the first is \<open>(4, 5, 6, 7)\<close> and the base face of the second is
  \<open>(5, 4, 7, 6)\<close>: the same four vertices in another order. Both are kept, so the mesh has
  12 faces where the count of exposed directions is 10. The bars along the first and the
  second axis lose their shared face and keep 10.
\<close>

theorem z_bar_faces_not_cancelled:
  "item3 (surface_voxels (ones 1 1 2)) 0 0 0 \<and> item3 (surface_voxels (ones 1 1 2)) 0 0 1
   \<and> faces_list (ones 1 1 2) =
       [(0, 1, 2, 3), (4, 5, 6, 7), (0, 1, 5, 4), (1, 2, 6, 5), (2, 3, 7, 6), (3, 0, 4, 7),
        (5, 4, 7, 6), (9, 8, 11, 10), (5, 4, 8, 9), (6, 5, 9, 10), (7, 6, 10, 11), (4, 7, 11, 8)]
   \<and> length (faces_list (ones 1 1 2)) = 12
   \<and> exposed_face_total (ones 1 1 2) = 10
   \<and> length (faces_list (ones 2 1 1)) = 10
   \<and> length (faces_list (ones 1 2 1)) = 10"
  by code_simp

text \<open>
  C2. On the \<open>2\<times>2\<times>2\<close> block of solid voxels the component count under
  6-connectivity is 1, and the mesh keeps 32 faces, where \<open>6 \<cdot> 2\<^sup>2 = 24\<close> lie on the
  outside of the block.
\<close>

theorem solid_block_2_faces:
  "find_connected_components (ones 2 2 2 :: u8 ndarray) 6 = Inr 1
   \<and> length (faces_list (ones 2 2 2)) = 32
   \<and> exposed_face_total (ones 2 2 2) = 24"
  by code_simp



section \<open>Surface voxels\<close>

text \<open>
  C5. On a grid of zeros and ones, the voxels that the extraction loop processes are
  exactly the positions \<open>(i, j, k)\<close> of the grid whose cell is 1 and whose six
  face-adjacent values, positions outside the grid counting 0, sum to less than 6.
\<close>

theorem surface_voxels_padded_sum:
  assumes "binary_grid d"
  shows "set [(i, j, k) \<leftarrow> positions (shape_x d) (shape_y d) (shape_z d). item3 (surface_voxels d) i j k]
       = {(i, j, k). i < shape_x d \<and> j < shape_y d \<and> k < shape_z d
            \<and> item3 d i j k = 1 \<and> six_neighbor_total d i j k < 6}"
  using surface_voxels_item [OF assms] by (auto simp: set_positions)

theorem surface_voxels_padded_sum_witness:
  "binary_grid bar
   \<and> set [(i, j, k) \<leftarrow> positions (shape_x bar) (shape_y bar) (shape_z bar). item3 (surface_voxels bar) i j k]
       = {(i, j, k). i < shape_x bar \<and> j < shape_y bar \<and> k < shape_z bar
            \<and> item3 bar i j k = 1 \<and> six_neighbor_total bar i j k < 6}
   \<and> [(i, j, k) \<leftarrow> positions (shape_x bar) (shape_y bar) (shape_z bar). item3 (surface_voxels bar) i j k]
       = [(0, 0, 0), (0, 0, 1)]"
proof -
  have b: "binary_grid bar" by (simp add: binary_grid_def bar_def wf_ndarray_def)
  have "[(i, j, k) \<leftarrow> positions (shape_x bar) (shape_y bar) (shape_z bar). item3 (surface_voxels bar) i j k]
       = [(0, 0, 0), (0, 0, 1)]" by code_simp
  then show ?thesis using b surface_voxels_padded_sum [OF b] by simp
qed

text \<open>
  C10. For a grid of zeros and ones, read as \<open>uint8\<close> by the first operator and as
  \<open>float64\<close> by the second, the mask \<open>surface_voxels\<close> built from the zero-padded
  array with slices equals the mask \<open>perimeter_voxels\<close> built with \<open>np.pad\<close> and
  \<open>np.roll\<close>: inside the padded array a roll by one never wraps around.
\<close>

theorem surface_masks_agree:
  assumes "binary_grid (g :: nat ndarray)"
  shows "surface_voxels (astype of_nat g) = perimeter_voxels (astype of_nat g)"
proof -
  have wf: "wf_ndarray g" using assms by (simp add: binary_grid_def)
  have bin: "pv g a b c = 0 \<or> pv g a b c = 1" for a b c
  proof (cases "1 \<le> a \<and> a \<le> shape_x g \<and> 1 \<le> b \<and> b \<le> shape_y g \<and> 1 \<le> c \<and> c \<le> shape_z g")
    case True
    then have "item3 g (a - 1) (b - 1) (c - 1) \<in> set (flat g)"
      using wf by (intro item3_mem) auto
    then show ?thesis using True assms by (auto simp: pv_def binary_grid_def)
  next
    case False
    then show ?thesis by (auto simp: pv_def)
  qed
  have "(item3 (astype of_nat g :: u8 ndarray) i j k = 1
          \<and> item3 (neighbor_sum (astype of_nat g)) i j k < 6)
      = (item3 (astype of_nat g :: real ndarray) i j k = 1
          \<and> item3 (slice3 (complete_neighbor_sum (astype of_nat g))
               (inner (shape_x (complete_neighbor_sum (astype of_nat g))))
               (inner (shape_y (complete_neighbor_sum (astype of_nat g))))
               (inner (shape_z (complete_neighbor_sum (astype of_nat g))))) i j k < 6)"
    if r: "i < shape_x g" "j < shape_y g" "k < shape_z g" for i j k
  proof -
    have "item3 g i j k \<in> set (flat g)" using wf r by (rule item3_mem)
    then have c: "item3 g i j k = 0 \<or> item3 g i j k = 1"
      using assms by (auto simp: binary_grid_def)
    have one: "(item3 (astype of_nat g :: u8 ndarray) i j k = 1)
        = (item3 (astype of_nat g :: real ndarray) i j k = 1)"
      using c by (auto simp: item3_astype [OF wf r])
    have s: "(item3 (neighbor_sum (astype of_nat g)) i j k < 6)
       = (item3 (slice3 (complete_neighbor_sum (astype of_nat g))
               (inner (shape_x (complete_neighbor_sum (astype of_nat g))))
               (inner (shape_y (complete_neighbor_sum (astype of_nat g))))
               (inner (shape_z (complete_neighbor_sum (astype of_nat g))))) i j k < 6)"
    proof -
      have pu: "pv (astype of_nat g :: u8 ndarray) a b c = of_nat (pv g a b c)" for a b c
        using pv_astype [OF wf, of of_nat] by simp
      have pr: "pv (astype of_nat g :: real ndarray) a b c = of_nat (pv g a b c)" for a b c
        using pv_astype [OF wf, of of_nat] by simp
      have ru: "i < shape_x (astype of_nat g :: u8 ndarray)" "j < shape_y (astype of_nat g :: u8 ndarray)"
        "k < shape_z (astype of_nat g :: u8 ndarray)" using r by simp_all
      have rr: "i < shape_x (astype of_nat g :: real ndarray)" "j < shape_y (astype of_nat g :: real ndarray)"
        "k < shape_z (astype of_nat g :: real ndarray)" using r by simp_all
      show ?thesis
        unfolding item3_neighbor_sum [OF ru] item3_perimeter_sum [OF rr] pu pr
        by (intro six_sum_u8_real bin)
    qed
    show ?thesis using one s by simp
  qed
  then show ?thesis
    unfolding surface_voxels_def perimeter_voxels_def Let_def astype_shape
    by (intro tabulate3_cong)
qed

theorem surface_masks_agree_witness:
  "binary_grid corner_grid
   \<and> surface_voxels (astype of_nat corner_grid) = perimeter_voxels (astype of_nat corner_grid)
   \<and> flat (surface_voxels (astype of_nat corner_grid)) = [True, False, True, True]"
proof -
  have b: "binary_grid corner_grid"
    by (simp add: binary_grid_def corner_grid_def wf_ndarray_def)
  have "flat (surface_voxels (astype of_nat corner_grid)) = [True, False, True, True]"
    by code_simp
  then show ?thesis using b surface_masks_agree [OF b] by simp
qed

section \<open>Flood fill over solid voxels\<close>

lemma rav_nat:
  assumes "inb d (x, y, z)"
  shows "rav d (x, y, z) = nat x * shape_y d * shape_z d + nat y * shape_z d + nat z"
proof -
  have "0 \<le> x" "0 \<le> y" "0 \<le> z" using assms by (auto simp: inb_def in_bounds_def)
  then have "x * int (shape_y d) * int (shape_z d) + y * int (shape_z d) + z
      = int (nat x * shape_y d * shape_z d + nat y * shape_z d + nat z)"
    by simp
  then show ?thesis unfolding rav_def ravel_def prod.case by (simp only: nat_int)
qed

lemma rav_lt:
  assumes "inb d p"
  shows "rav d p < voxel_count d"
proof -
  obtain x y z where p: "p = (x, y, z)" by (cases p)
  have "nat x < shape_x d" "nat y < shape_y d" "nat z < shape_z d"
    using assms unfolding p by (auto simp: inb_def in_bounds_def)
  then show ?thesis
    unfolding p rav_nat [OF assms [unfolded p]] voxel_count_def by (rule offset_lt)
qed

lemma unravel_rav:
  assumes "inb d p"
  shows "unravel d (rav d p) = p"
proof -
  obtain x y z where p: "p = (x, y, z)" by (cases p)
  have b: "nat y < shape_y d" "nat z < shape_z d" and nn: "0 \<le> x" "0 \<le> y" "0 \<le> z"
    using assms unfolding p by (auto simp: inb_def in_bounds_def)
  show ?thesis
    unfolding p rav_nat [OF assms [unfolded p]] unravel_def
    using offset_div [OF b, of "nat x"] nn by simp
qed

lemma inb_unravel:
  assumes "idx < voxel_count d"
  shows "inb d (unravel d idx)"
  using index_div_lt [OF assms [unfolded voxel_count_def]]
  by (simp add: inb_def unravel_def in_bounds_def)

lemma rav_unravel:
  assumes "idx < voxel_count d"
  shows "rav d (unravel d idx) = idx"
proof -
  let ?m = "shape_y d * shape_z d"
  have "rav d (unravel d idx)
      = idx div ?m * shape_y d * shape_z d + idx mod ?m div shape_z d * shape_z d + idx mod shape_z d"
    using rav_nat [OF inb_unravel [OF assms, unfolded unravel_def]]
    by (simp add: unravel_def)
  also have "idx mod shape_z d = idx mod ?m mod shape_z d"
    by (simp add: mod_mod_cancel)
  also have "idx div ?m * shape_y d * shape_z d + idx mod ?m div shape_z d * shape_z d
      + idx mod ?m mod shape_z d = idx div ?m * ?m + idx mod ?m"
    by (simp add: mult.assoc)
  also have "\<dots> = idx" by (rule div_mult_mod_eq)
  finally show ?thesis .
qed

lemma rav_inj:
  assumes "inb d p" "inb d q" "rav d p = rav d q"
  shows "p = q"
proof -
  have "p = unravel d (rav d p)" by (rule unravel_rav [OF assms(1), symmetric])
  also have "\<dots> = unravel d (rav d q)" by (simp only: assms(3))
  also have "\<dots> = q" by (rule unravel_rav [OF assms(2)])
  finally show ?thesis .
qed

lemma cell_flat:
  assumes "inb d p"
  shows "cell d p = flat d ! rav d p"
proof -
  obtain x y z where p: "p = (x, y, z)" by (cases p)
  show ?thesis
    unfolding p rav_nat [OF assms [unfolded p]] by (simp add: cell_def item3_def)
qed

lemma visited_set_mark:
  assumes "inb (data s) q" "length (visited s) = voxel_count (data s)"
  shows "visited_set (s\<lparr>visited := (visited s)[rav (data s) q := True]\<rparr>) = insert q (visited_set s)"
proof -
  have lt: "rav (data s) q < length (visited s)" using rav_lt [OF assms(1)] assms(2) by simp
  have "(visited s)[rav (data s) q := True] ! rav (data s) p \<longleftrightarrow> p = q \<or> visited s ! rav (data s) p"
    if "inb (data s) p" for p
    using lt rav_inj [OF that assms(1)] by (auto simp: nth_list_update)
  then show ?thesis using assms(1) by (auto simp: visited_set_def)
qed

lemma store_ok_mark:
  "store_ok d s \<Longrightarrow> store_ok d (s\<lparr>visited := (visited s)[n := True]\<rparr>)"
  by (simp add: store_ok_def)

lemma cc_visit_pos:
  assumes "store_ok d s"
  shows "cc_visit c (s, q) off =
     Inr (if inb d (shift c off) \<and> cell d (shift c off) = 1 \<and> shift c off \<notin> visited_set s
           then (s\<lparr>visited := (visited s)[rav d (shift c off) := True]\<rparr>, q @ [rav d (shift c off)])
           else (s, q))"
proof -
  obtain cx cy cz where c: "c = (cx, cy, cz)" by (cases c)
  obtain dx dy dz where off: "off = (dx, dy, dz)" by (cases off)
  have d: "data s = d" and len: "length (visited s) = voxel_count d"
    using assms by (simp_all add: store_ok_def)
  show ?thesis
  proof (cases "in_bounds d (cx + dx) (cy + dy) (cz + dz)")
    case False
    then show ?thesis by (simp add: c off d shift_def inb_def)
  next
    case True
    then have i: "inb d (cx + dx, cy + dy, cz + dz)" by (simp add: inb_def)
    have lt: "ravel d (cx + dx) (cy + dy) (cz + dz) < length (visited s)"
      using rav_lt [OF i] len by (simp add: rav_def)
    show ?thesis
      using True lt i
      by (simp add: c off d shift_def inb_def cell_def rav_def visited_set_def Let_def)
  qed
qed

lemma cc_neighbors_pos:
  assumes "store_ok d s"
  shows "\<exists>s' q'. for_each (cc_visit c) (s, q) N = Inr (s', q') \<and> store_ok d s'
     \<and> visited_set s' = visited_set s \<union> {n. n \<in> voxels_with 1 d \<and> (\<exists>off \<in> set N. n = shift c off)}
     \<and> set q' = set q \<union> rav d ` (visited_set s' - visited_set s)"
  using assms
proof (induction N arbitrary: s q)
  case Nil
  then show ?case by simp
next
  case (Cons off N)
  let ?n = "shift c off"
  let ?new = "inb d ?n \<and> cell d ?n = 1 \<and> ?n \<notin> visited_set s"
  let ?s1 = "if ?new then s\<lparr>visited := (visited s)[rav d ?n := True]\<rparr> else s"
  let ?q1 = "if ?new then q @ [rav d ?n] else q"
  have d: "data s = d" and len: "length (visited s) = voxel_count d"
    using Cons.prems by (simp_all add: store_ok_def)
  have step: "cc_visit c (s, q) off = Inr (?s1, ?q1)"
    using cc_visit_pos [OF Cons.prems, of c q off] by simp
  have ok1: "store_ok d ?s1" using Cons.prems by (simp add: store_ok_mark)
  have v1: "visited_set ?s1 = visited_set s \<union> {n. n \<in> voxels_with 1 d \<and> n = ?n}"
  proof (cases ?new)
    case True
    then show ?thesis
      using visited_set_mark [of s ?n] d len by (auto simp: voxels_with_def)
  next
    case False
    then show ?thesis by (auto simp: voxels_with_def)
  qed
  have q1: "set ?q1 = set q \<union> rav d ` (visited_set ?s1 - visited_set s)"
    unfolding v1 by (auto simp: voxels_with_def)
  obtain s' q' where r: "for_each (cc_visit c) (?s1, ?q1) N = Inr (s', q')" "store_ok d s'"
    "visited_set s' = visited_set ?s1 \<union> {n. n \<in> voxels_with 1 d \<and> (\<exists>off \<in> set N. n = shift c off)}"
    "set q' = set ?q1 \<union> rav d ` (visited_set s' - visited_set ?s1)"
    using Cons.IH [OF ok1, of ?q1] by blast
  have "for_each (cc_visit c) (s, q) (off # N) = Inr (s', q')"
    using step r(1) by simp
  moreover have "visited_set s' = visited_set s
      \<union> {n. n \<in> voxels_with 1 d \<and> (\<exists>off' \<in> set (off # N). n = shift c off')}"
    unfolding r(3) v1 by auto
  moreover have "set q' = set q \<union> rav d ` (visited_set s' - visited_set s)"
    unfolding r(4) q1 unfolding r(3) v1 by blast
  ultimately show ?case using r(2) by blast
qed

lemma visited_set_inb: "p \<in> visited_set s \<Longrightarrow> inb (data s) p"
  by (simp add: visited_set_def)

lemma unravel_rav_image:
  assumes "\<And>p. p \<in> A \<Longrightarrow> inb d p"
  shows "unravel d ` rav d ` A = A"
proof -
  have "unravel d (rav d p) = p" if "p \<in> A" for p
    using unravel_rav [OF assms [OF that]] .
  then show ?thesis by (force simp: image_iff)
qed

lemma step_rel_image:
  assumes "c \<in> T"
  shows "step_rel N T `` {c} = {n. n \<in> T \<and> (\<exists>off \<in> N. n = shift c off)}"
  using assms by (auto simp: step_rel_def)

lemma cc_bfs_loop_correct:
  fixes d :: "('a::one) ndarray"
  assumes "store_ok d s"
    and "\<forall>i \<in> set q. unravel d i \<in> voxels_with 1 d"
    and "\<forall>p \<in> visited_set s. p \<notin> unravel d ` set q \<longrightarrow>
           (\<forall>r. (p, r) \<in> step_rel (set N) (voxels_with 1 d) \<longrightarrow> r \<in> visited_set s)"
  shows "\<exists>s'. cc_bfs_loop N s q = Inr s' \<and> store_ok d s'
     \<and> visited_set s \<subseteq> visited_set s'
     \<and> visited_set s' \<subseteq> visited_set s \<union> (step_rel (set N) (voxels_with 1 d))\<^sup>* `` (unravel d ` set q)
     \<and> (\<forall>p \<in> visited_set s'. \<forall>r. (p, r) \<in> step_rel (set N) (voxels_with 1 d) \<longrightarrow> r \<in> visited_set s')"
  using assms
proof (induction N s q rule: cc_bfs_loop.induct)
  case (1 neighbors s)
  then show ?case by simp
next
  case (2 neighbors s i q)
  let ?T = "voxels_with 1 d"
  let ?E = "step_rel (set neighbors) ?T"
  let ?c = "unravel d i"
  have d: "data s = d" using "2.prems"(1) by (simp add: store_ok_def)
  have cT: "?c \<in> ?T" using "2.prems"(2) by simp
  obtain s1 q1 where n: "for_each (cc_visit ?c) (s, q) neighbors = Inr (s1, q1)"
    and ok1: "store_ok d s1"
    and v1: "visited_set s1 = visited_set s \<union> ?E `` {?c}"
    and q1: "set q1 = set q \<union> rav d ` (visited_set s1 - visited_set s)"
    using cc_neighbors_pos [OF "2.prems"(1), of ?c q neighbors]
    unfolding step_rel_image [OF cT] by blast
  have d1: "data s1 = d" using ok1 by (simp add: store_ok_def)
  have new_inb: "inb d p" if "p \<in> visited_set s1 - visited_set s" for p
    using that visited_set_inb [of p s1] d1 by simp
  have uq1: "unravel d ` set q1 = unravel d ` set q \<union> (visited_set s1 - visited_set s)"
  proof -
    have "unravel d ` rav d ` (visited_set s1 - visited_set s) = visited_set s1 - visited_set s"
      by (rule unravel_rav_image) (rule new_inb)
    then show ?thesis unfolding q1 image_Un by simp
  qed
  have newT: "visited_set s1 - visited_set s \<subseteq> ?E `` {?c}" using v1 by blast
  have p2: "\<forall>i \<in> set q1. unravel d i \<in> ?T"
  proof
    fix j assume "j \<in> set q1"
    then have "unravel d j \<in> unravel d ` set q1" by simp
    then consider "unravel d j \<in> unravel d ` set q" | "unravel d j \<in> ?E `` {?c}"
      unfolding uq1 using newT by blast
    then show "unravel d j \<in> ?T"
    proof cases
      case 1
      then show ?thesis using "2.prems"(2) by auto
    next
      case 2
      then show ?thesis by (auto simp: step_rel_def)
    qed
  qed
  have p3: "\<forall>p \<in> visited_set s1. p \<notin> unravel d ` set q1 \<longrightarrow>
           (\<forall>r. (p, r) \<in> ?E \<longrightarrow> r \<in> visited_set s1)"
  proof (intro ballI impI allI)
    fix p r assume p: "p \<in> visited_set s1" "p \<notin> unravel d ` set q1" and e: "(p, r) \<in> ?E"
    from p have pv: "p \<in> visited_set s" and pq: "p \<notin> unravel d ` set q"
      unfolding uq1 by auto
    show "r \<in> visited_set s1"
    proof (cases "p = ?c")
      case True
      then show ?thesis using e v1 by auto
    next
      case False
      then have "p \<notin> unravel d ` set (i # q)" using pq by simp
      then have "r \<in> visited_set s" using "2.prems"(3) pv e by blast
      then show ?thesis using v1 by simp
    qed
  qed
  obtain s' where r: "cc_bfs_loop neighbors s1 q1 = Inr s'" "store_ok d s'"
    "visited_set s1 \<subseteq> visited_set s'"
    "visited_set s' \<subseteq> visited_set s1 \<union> ?E\<^sup>* `` (unravel d ` set q1)"
    "\<forall>p \<in> visited_set s'. \<forall>r. (p, r) \<in> ?E \<longrightarrow> r \<in> visited_set s'"
    using "2.IH" [OF n [unfolded d [symmetric]] refl ok1 p2 p3] by blast
  have run: "cc_bfs_loop neighbors s (i # q) = Inr s'"
    using n r(1) by (simp add: d)
  have mono: "visited_set s \<subseteq> visited_set s'" using v1 r(3) by blast
  have a: "?E\<^sup>* `` (?E `` {?c}) \<subseteq> ?E\<^sup>* `` {?c}"
  proof
    fix x assume "x \<in> ?E\<^sup>* `` (?E `` {?c})"
    then obtain y where "(?c, y) \<in> ?E" "(y, x) \<in> ?E\<^sup>*" by blast
    then have "(?c, x) \<in> ?E\<^sup>*" by (rule converse_rtrancl_into_rtrancl)
    then show "x \<in> ?E\<^sup>* `` {?c}" by blast
  qed
  have b: "?E\<^sup>* `` {?c} \<subseteq> ?E\<^sup>* `` (unravel d ` set (i # q))"
    by (rule Image_mono) simp_all
  have c: "?E\<^sup>* `` (unravel d ` set q) \<subseteq> ?E\<^sup>* `` (unravel d ` set (i # q))"
    by (rule Image_mono) auto
  have e: "?E\<^sup>* `` (visited_set s1 - visited_set s) \<subseteq> ?E\<^sup>* `` (?E `` {?c})"
    by (rule Image_mono) (simp_all add: newT)
  have f: "?E\<^sup>* `` (unravel d ` set q1) \<subseteq> ?E\<^sup>* `` (unravel d ` set (i # q))"
  proof -
    have "?E\<^sup>* `` (visited_set s1 - visited_set s) \<subseteq> ?E\<^sup>* `` (unravel d ` set (i # q))"
      by (rule order_trans [OF e order_trans [OF a b]])
    then show ?thesis unfolding uq1 Image_Un using c by (rule_tac Un_least)
  qed
  have g: "?E `` {?c} \<subseteq> ?E\<^sup>* `` {?c}" by blast
  have sound: "visited_set s' \<subseteq> visited_set s \<union> ?E\<^sup>* `` (unravel d ` set (i # q))"
  proof
    fix x assume "x \<in> visited_set s'"
    then have "x \<in> visited_set s1 \<or> x \<in> ?E\<^sup>* `` (unravel d ` set q1)" using r(4) by blast
    then have "x \<in> visited_set s \<or> x \<in> ?E `` {?c} \<or> x \<in> ?E\<^sup>* `` (unravel d ` set q1)"
      unfolding v1 by blast
    moreover have "?E `` {?c} \<subseteq> ?E\<^sup>* `` (unravel d ` set (i # q))"
      by (rule order_trans [OF g b])
    ultimately show "x \<in> visited_set s \<union> ?E\<^sup>* `` (unravel d ` set (i # q))"
      using f by (elim disjE) (simp, blast, blast)
  qed
  show ?case
    by (intro exI [of _ s'] conjI run r(2) mono sound r(5))
qed

lemma shift_neg: "shift (shift p off) (neg off) = p"
  by (cases p; cases off) (simp add: shift_def neg_def)

lemma sym_step_rel:
  assumes "symmetric_offsets N"
  shows "sym (step_rel N S)"
proof (rule symI)
  fix p q assume "(p, q) \<in> step_rel N S"
  then obtain off where o: "p \<in> S" "q \<in> S" "off \<in> N" "q = shift p off"
    by (auto simp: step_rel_def)
  have "neg off \<in> N" using assms o(3) by (simp add: symmetric_offsets_def)
  moreover have "p = shift q (neg off)" unfolding o(4) shift_neg ..
  ultimately show "(q, p) \<in> step_rel N S" using o(1,2) by (auto simp: step_rel_def)
qed

lemma step_rel_mono: "S \<subseteq> A \<Longrightarrow> step_rel N S \<subseteq> step_rel N A"
  by (auto simp: step_rel_def)

lemma reach_in_set:
  assumes "(p, q) \<in> (step_rel N A)\<^sup>*" "p \<in> A"
  shows "q \<in> A"
  using assms by (induction rule: rtrancl_induct) (auto simp: step_rel_def)

lemma reach_within_class:
  assumes "(p, x) \<in> (step_rel N A)\<^sup>*"
  shows "(p, x) \<in> (step_rel N ((step_rel N A)\<^sup>* `` {p}))\<^sup>*"
  using assms
proof (induction rule: rtrancl_induct)
  case base
  then show ?case by simp
next
  case (step y z)
  have "y \<in> (step_rel N A)\<^sup>* `` {p}" using step.hyps(1) by blast
  moreover have "z \<in> (step_rel N A)\<^sup>* `` {p}"
    using step.hyps(1,2) by (blast intro: rtrancl_into_rtrancl)
  moreover have "\<exists>off \<in> N. z = shift y off" using step.hyps(2) by (auto simp: step_rel_def)
  ultimately have "(y, z) \<in> step_rel N ((step_rel N A)\<^sup>* `` {p})"
    unfolding step_rel_def by blast
  then show ?case using step.IH by (rule rtrancl_into_rtrancl [rotated])
qed

lemma class_connected:
  assumes "symmetric_offsets N"
  shows "connected_in N ((step_rel N A)\<^sup>* `` {p})"
  unfolding connected_in_def
proof (intro ballI)
  let ?C = "(step_rel N A)\<^sup>* `` {p}"
  fix x y assume "x \<in> ?C" "y \<in> ?C"
  then have px: "(p, x) \<in> (step_rel N ?C)\<^sup>*" and py: "(p, y) \<in> (step_rel N ?C)\<^sup>*"
    by (auto intro: reach_within_class)
  have "sym ((step_rel N ?C)\<^sup>*)" by (rule sym_rtrancl [OF sym_step_rel [OF assms]])
  then have "(x, p) \<in> (step_rel N ?C)\<^sup>*" using px by (rule symD)
  then show "(x, y) \<in> (step_rel N ?C)\<^sup>*" using py by (rule rtrancl_trans)
qed

lemma maximal_connected_iff:
  assumes "symmetric_offsets N"
  shows "maximal_connected N A C \<longleftrightarrow> (\<exists>p \<in> A. C = (step_rel N A)\<^sup>* `` {p})"
proof
  assume m: "maximal_connected N A C"
  then obtain p where p: "p \<in> C" by (auto simp: maximal_connected_def)
  have CA: "C \<subseteq> A" and con: "connected_in N C"
    and mx: "\<And>C'. C \<subseteq> C' \<Longrightarrow> C' \<subseteq> A \<Longrightarrow> connected_in N C' \<Longrightarrow> C' = C"
    using m by (auto simp: maximal_connected_def)
  let ?K = "(step_rel N A)\<^sup>* `` {p}"
  have pA: "p \<in> A" using p CA by blast
  have "C \<subseteq> ?K"
  proof
    fix y assume "y \<in> C"
    then have "(p, y) \<in> (step_rel N C)\<^sup>*" using con p by (simp add: connected_in_def)
    then have "(p, y) \<in> (step_rel N A)\<^sup>*"
      using rtrancl_mono [OF step_rel_mono [OF CA]] by blast
    then show "y \<in> ?K" by blast
  qed
  moreover have "?K \<subseteq> A" using reach_in_set [OF _ pA] by blast
  ultimately have "?K = C" using class_connected [OF assms] by (intro mx)
  then show "\<exists>p \<in> A. C = (step_rel N A)\<^sup>* `` {p}" using pA by blast
next
  assume "\<exists>p \<in> A. C = (step_rel N A)\<^sup>* `` {p}"
  then obtain p where pA: "p \<in> A" and C: "C = (step_rel N A)\<^sup>* `` {p}" by blast
  have ne: "C \<noteq> {}" unfolding C by blast
  have CA: "C \<subseteq> A" unfolding C using reach_in_set [OF _ pA] by blast
  have con: "connected_in N C" unfolding C by (rule class_connected [OF assms])
  have "C' = C" if h: "C \<subseteq> C'" "C' \<subseteq> A" "connected_in N C'" for C'
  proof
    show "C \<subseteq> C'" by (rule h(1))
    show "C' \<subseteq> C"
    proof
      fix y assume y: "y \<in> C'"
      have "p \<in> C'" using h(1) unfolding C by blast
      then have "(p, y) \<in> (step_rel N C')\<^sup>*" using h(3) y by (simp add: connected_in_def)
      then have "(p, y) \<in> (step_rel N A)\<^sup>*"
        using rtrancl_mono [OF step_rel_mono [OF h(2)]] by blast
      then show "y \<in> C" unfolding C by blast
    qed
  qed
  then show "maximal_connected N A C" using ne CA con by (simp add: maximal_connected_def)
qed

lemma maximal_connected_classes:
  assumes "symmetric_offsets N"
  shows "{C. maximal_connected N A C} = (\<lambda>p. (step_rel N A)\<^sup>* `` {p}) ` A"
  using maximal_connected_iff [OF assms] by blast

lemma class_of_self: "p \<in> class_of N T p"
  by (simp add: class_of_def)

lemma class_of_eq:
  assumes "symmetric_offsets N" "p \<in> class_of N T a"
  shows "class_of N T p = class_of N T a"
proof -
  have ap: "(a, p) \<in> (step_rel N T)\<^sup>*" using assms(2) by (simp add: class_of_def)
  have "sym ((step_rel N T)\<^sup>*)" by (rule sym_rtrancl [OF sym_step_rel [OF assms(1)]])
  then have pa: "(p, a) \<in> (step_rel N T)\<^sup>*" using ap by (rule symD)
  show ?thesis
  proof
    show "class_of N T p \<subseteq> class_of N T a"
      unfolding class_of_def using ap by (auto intro: rtrancl_trans)
    show "class_of N T a \<subseteq> class_of N T p"
      unfolding class_of_def using pa by (auto intro: rtrancl_trans)
  qed
qed

lemma reach_Image: "(step_rel N T)\<^sup>* `` D = (\<Union>p \<in> D. class_of N T p)"
  by (auto simp: class_of_def)

lemma closed_class:
  assumes "p \<in> F" "\<forall>x \<in> F. \<forall>r. (x, r) \<in> E \<longrightarrow> r \<in> F"
  shows "E\<^sup>* `` {p} \<subseteq> F"
proof
  fix y assume "y \<in> E\<^sup>* `` {p}"
  then have "(p, y) \<in> E\<^sup>*" by simp
  then show "y \<in> F" using assms by (induction rule: rtrancl_induct) auto
qed

lemma reach_closed: "\<forall>x \<in> E\<^sup>* `` D. \<forall>r. (x, r) \<in> E \<longrightarrow> r \<in> E\<^sup>* `` D"
  by (auto intro: rtrancl_into_rtrancl)

lemma cc_bfs_correct:
  fixes d :: "('a::one) ndarray"
  assumes ok: "store_ok d s"
    and p0: "p0 \<in> voxels_with 1 d" "p0 \<notin> visited_set s"
    and cl: "\<forall>x \<in> visited_set s. \<forall>r. (x, r) \<in> step_rel (set N) (voxels_with 1 d) \<longrightarrow> r \<in> visited_set s"
  shows "\<exists>s'. cc_bfs N s (rav d p0) = Inr s' \<and> store_ok d s'
     \<and> visited_set s' = visited_set s \<union> class_of (set N) (voxels_with 1 d) p0"
proof -
  let ?E = "step_rel (set N) (voxels_with 1 d)"
  let ?s0 = "s\<lparr>visited := (visited s)[rav d p0 := True]\<rparr>"
  have d: "data s = d" and len: "length (visited s) = voxel_count d"
    using ok by (simp_all add: store_ok_def)
  have i0: "inb d p0" using p0(1) by (simp add: voxels_with_def)
  have lt: "rav d p0 < length (visited s)" using rav_lt [OF i0] len by simp
  have ok0: "store_ok d ?s0" using ok by (rule store_ok_mark)
  have v0: "visited_set ?s0 = insert p0 (visited_set s)"
    using visited_set_mark [of s p0] i0 len d by simp
  have u0: "unravel d ` set [rav d p0] = {p0}" using unravel_rav [OF i0] by simp
  have a2: "\<forall>i \<in> set [rav d p0]. unravel d i \<in> voxels_with 1 d"
    using unravel_rav [OF i0] p0(1) by simp
  have a3: "\<forall>p \<in> visited_set ?s0. p \<notin> unravel d ` set [rav d p0] \<longrightarrow>
           (\<forall>r. (p, r) \<in> ?E \<longrightarrow> r \<in> visited_set ?s0)"
    unfolding u0 v0 using cl by blast
  obtain s' where r: "cc_bfs_loop N ?s0 [rav d p0] = Inr s'" "store_ok d s'"
    "visited_set ?s0 \<subseteq> visited_set s'"
    "visited_set s' \<subseteq> visited_set ?s0 \<union> ?E\<^sup>* `` (unravel d ` set [rav d p0])"
    "\<forall>p \<in> visited_set s'. \<forall>r. (p, r) \<in> ?E \<longrightarrow> r \<in> visited_set s'"
    using cc_bfs_loop_correct [OF ok0 a2 a3] by blast
  have run: "cc_bfs N s (rav d p0) = Inr s'"
    using r(1) lt by (simp add: cc_bfs_def)
  have "p0 \<in> visited_set s'" using r(3) v0 by blast
  then have up: "?E\<^sup>* `` {p0} \<subseteq> visited_set s'" using r(5) by (rule closed_class)
  have lo: "visited_set s' \<subseteq> visited_set s \<union> ?E\<^sup>* `` {p0}"
    using r(4) unfolding u0 v0 by blast
  have "visited_set s' = visited_set s \<union> class_of (set N) (voxels_with 1 d) p0"
    unfolding class_of_def using up lo r(3) v0 by blast
  then show ?thesis using run r(2) by blast
qed

lemma finite_inb: "finite {p. inb d p}"
proof -
  have "{p. inb d p} \<subseteq> {0 ..< int (shape_x d)} \<times> {0 ..< int (shape_y d)} \<times> {0 ..< int (shape_z d)}"
    by (auto simp: inb_def in_bounds_def)
  then show ?thesis by (rule finite_subset) simp
qed

lemma finite_voxels_with: "finite (voxels_with v d)"
  by (rule finite_subset [OF _ finite_inb [of d]]) (auto simp: voxels_with_def)

lemma classes_insert_new:
  assumes "finite D" "p \<notin> (step_rel N T)\<^sup>* `` D"
  shows "card (class_of N T ` insert p D) = card (class_of N T ` D) + 1"
proof -
  have "class_of N T p \<notin> class_of N T ` D"
  proof
    assume "class_of N T p \<in> class_of N T ` D"
    then obtain a where "a \<in> D" "class_of N T p = class_of N T a" by blast
    then have "p \<in> class_of N T a" using class_of_self [of p N T] by simp
    then show False using assms(2) \<open>a \<in> D\<close> by (auto simp: class_of_def)
  qed
  then show ?thesis using assms(1) by simp
qed

lemma classes_insert_old:
  assumes "symmetric_offsets N" "p \<in> (step_rel N T)\<^sup>* `` D"
  shows "class_of N T ` insert p D = class_of N T ` D"
    and "(step_rel N T)\<^sup>* `` insert p D = (step_rel N T)\<^sup>* `` D"
proof -
  obtain a where a: "a \<in> D" "p \<in> class_of N T a"
    using assms(2) by (auto simp: class_of_def)
  have e: "class_of N T p = class_of N T a" by (rule class_of_eq [OF assms(1) a(2)])
  show "class_of N T ` insert p D = class_of N T ` D" using a(1) e by auto
  then show "(step_rel N T)\<^sup>* `` insert p D = (step_rel N T)\<^sup>* `` D"
    unfolding reach_Image by (metis UN_simps(10) image_image)
qed

lemma symmetric_offsets_model: "symmetric_offsets (offsets m)"
  unfolding symmetric_offsets_def offsets_def neg_def by auto

lemma select_neighbors_offsets:
  assumes "m \<in> {6, 18, 26}"
  shows "\<exists>N. select_neighbors m = Inr N \<and> set N = offsets m"
  using assms set_NEIGHBORS_6 set_NEIGHBORS_18 set_NEIGHBORS_26
  by (auto simp: select_neighbors_def offsets_def)

lemma scan_flags:
  assumes "store_ok d s" "idx < voxel_count d"
  shows "flat d ! idx = v \<longleftrightarrow> unravel d idx \<in> voxels_with v d"
    and "visited s ! idx \<longleftrightarrow> unravel d idx \<in> visited_set s"
proof -
  have i: "inb d (unravel d idx)" by (rule inb_unravel [OF assms(2)])
  have r: "rav d (unravel d idx) = idx" by (rule rav_unravel [OF assms(2)])
  have d: "data s = d" using assms(1) by (simp add: store_ok_def)
  show "flat d ! idx = v \<longleftrightarrow> unravel d idx \<in> voxels_with v d"
    using i cell_flat [OF i] r by (simp add: voxels_with_def)
  show "visited s ! idx \<longleftrightarrow> unravel d idx \<in> visited_set s"
    using i r d by (simp add: visited_set_def)
qed

lemma cc_scan_correct:
  fixes d :: "('a::one) ndarray"
  assumes sym: "symmetric_offsets (set N)"
    and sc: "scanned d (set N) (voxels_with 1 d) s D"
    and idx: "idx < voxel_count d"
  shows "\<exists>s'. cc_scan N (s, card (class_of (set N) (voxels_with 1 d) ` D)) idx
        = Inr (s', card (class_of (set N) (voxels_with 1 d) ` (D \<union> ({unravel d idx} \<inter> voxels_with 1 d))))
     \<and> scanned d (set N) (voxels_with 1 d) s' (D \<union> ({unravel d idx} \<inter> voxels_with 1 d))"
proof -
  let ?T = "voxels_with 1 d"
  let ?E = "step_rel (set N) ?T"
  let ?p = "unravel d idx"
  have ok: "store_ok d s" and DT: "D \<subseteq> ?T" and vs: "visited_set s = ?E\<^sup>* `` D"
    using sc by (simp_all add: scanned_def)
  have d: "data s = d" using ok by (simp add: store_ok_def)
  have fl: "flat (data s) ! idx = 1 \<longleftrightarrow> ?p \<in> ?T" and vi: "visited s ! idx \<longleftrightarrow> ?p \<in> visited_set s"
    using scan_flags [OF ok idx] d by simp_all
  have finD: "finite D" by (rule finite_subset [OF DT finite_voxels_with])
  consider (skip) "?p \<notin> ?T" | (old) "?p \<in> ?T" "?p \<in> visited_set s"
    | (new) "?p \<in> ?T" "?p \<notin> visited_set s" by blast
  then show ?thesis
  proof cases
    case skip
    then have "D \<union> ({?p} \<inter> ?T) = D" by blast
    moreover have "cc_scan N (s, card (class_of (set N) ?T ` D)) idx
        = Inr (s, card (class_of (set N) ?T ` D))"
      using skip fl by (simp add: cc_scan_def)
    ultimately show ?thesis using sc by simp
  next
    case old
    have e: "D \<union> ({?p} \<inter> ?T) = insert ?p D" using old(1) by blast
    have r: "cc_scan N (s, card (class_of (set N) ?T ` D)) idx
        = Inr (s, card (class_of (set N) ?T ` D))"
      using old fl vi by (simp add: cc_scan_def)
    have m: "?p \<in> ?E\<^sup>* `` D" using old(2) vs by simp
    have "scanned d (set N) ?T s (insert ?p D)"
      using ok DT old(1) vs classes_insert_old(2) [OF sym m] by (simp add: scanned_def)
    then show ?thesis
      unfolding e using r classes_insert_old(1) [OF sym m] by simp
  next
    case new
    have e: "D \<union> ({?p} \<inter> ?T) = insert ?p D" using new(1) by blast
    have cl: "\<forall>x \<in> visited_set s. \<forall>r. (x, r) \<in> ?E \<longrightarrow> r \<in> visited_set s"
      unfolding vs by (rule reach_closed)
    obtain s' where b: "cc_bfs N s (rav d ?p) = Inr s'" "store_ok d s'"
      "visited_set s' = visited_set s \<union> class_of (set N) ?T ?p"
      using cc_bfs_correct [OF ok new cl] by blast
    have b': "cc_bfs N s idx = Inr s'" using b(1) rav_unravel [OF idx] by simp
    have r: "cc_scan N (s, card (class_of (set N) ?T ` D)) idx
        = Inr (s', card (class_of (set N) ?T ` D) + 1)"
      using new fl vi b' by (simp add: cc_scan_def)
    have m: "?p \<notin> ?E\<^sup>* `` D" using new(2) vs by simp
    have "visited_set s' = ?E\<^sup>* `` insert ?p D"
      unfolding b(3) vs by (auto simp: class_of_def)
    then have "scanned d (set N) ?T s' (insert ?p D)"
      using b(2) DT new(1) by (simp add: scanned_def)
    then show ?thesis
      unfolding e using r classes_insert_new [OF finD m] by simp
  qed
qed

lemma cc_scan_all:
  fixes d :: "('a::one) ndarray"
  assumes sym: "symmetric_offsets (set N)"
    and sc: "scanned d (set N) (voxels_with 1 d) s D"
    and xs: "\<forall>i \<in> set xs. i < voxel_count d"
  shows "\<exists>s'. for_each (cc_scan N) (s, card (class_of (set N) (voxels_with 1 d) ` D)) xs
        = Inr (s', card (class_of (set N) (voxels_with 1 d) ` (D \<union> (unravel d ` set xs \<inter> voxels_with 1 d))))
     \<and> scanned d (set N) (voxels_with 1 d) s' (D \<union> (unravel d ` set xs \<inter> voxels_with 1 d))"
  using sc xs
proof (induction xs arbitrary: s D)
  case Nil
  then show ?case by simp
next
  case (Cons i xs)
  let ?T = "voxels_with 1 d"
  let ?D1 = "D \<union> ({unravel d i} \<inter> ?T)"
  have i: "i < voxel_count d" using Cons.prems(2) by simp
  obtain s1 where s1: "cc_scan N (s, card (class_of (set N) ?T ` D)) i
        = Inr (s1, card (class_of (set N) ?T ` ?D1))"
    "scanned d (set N) ?T s1 ?D1"
    using cc_scan_correct [OF sym Cons.prems(1) i] by blast
  have xs': "\<forall>i \<in> set xs. i < voxel_count d" using Cons.prems(2) by simp
  have e: "?D1 \<union> (unravel d ` set xs \<inter> ?T) = D \<union> (unravel d ` set (i # xs) \<inter> ?T)"
    by auto
  show ?case
    using Cons.IH [OF s1(2) xs'] s1(1) unfolding e by simp
qed

lemma visited_set_initial:
  "visited_set \<lparr>data = d, visited = replicate (voxel_count d) False\<rparr> = {}"
  using rav_lt [of d] by (auto simp: visited_set_def)

lemma scanned_initial:
  "scanned d N T \<lparr>data = d, visited = replicate (voxel_count d) False\<rparr> {}"
  by (simp add: scanned_def store_ok_def visited_set_initial)

lemma unravel_range: "unravel d ` set [0 ..< voxel_count d] = {p. inb d p}"
proof
  show "unravel d ` set [0 ..< voxel_count d] \<subseteq> {p. inb d p}"
    using inb_unravel [of _ d] by auto
  show "{p. inb d p} \<subseteq> unravel d ` set [0 ..< voxel_count d]"
  proof
    fix p assume "p \<in> {p. inb d p}"
    then have i: "inb d p" by simp
    have "rav d p \<in> set [0 ..< voxel_count d]" using rav_lt [OF i] by simp
    moreover have "p = unravel d (rav d p)" using unravel_rav [OF i] by simp
    ultimately show "p \<in> unravel d ` set [0 ..< voxel_count d]" by (rule rev_image_eqI)
  qed
qed

lemma cc_run_count:
  fixes d :: "('a::one) ndarray"
  assumes "m \<in> {6, 18, 26}"
  shows "\<exists>s. cc_run d m = Inr (s, card (class_of (offsets m) (voxels_with 1 d) ` voxels_with 1 d))
     \<and> store_ok d s"
proof -
  let ?T = "voxels_with 1 d"
  obtain N where N: "select_neighbors m = Inr N" "set N = offsets m"
    using select_neighbors_offsets [OF assms] by blast
  have sym: "symmetric_offsets (set N)" unfolding N(2) by (rule symmetric_offsets_model)
  let ?s0 = "\<lparr>data = d, visited = replicate (voxel_count d) False\<rparr>"
  have c0: "card (class_of (set N) ?T ` {}) = 0" by simp
  have xs: "\<forall>i \<in> set [0 ..< voxel_count d]. i < voxel_count d" by simp
  have e: "{} \<union> (unravel d ` set [0 ..< voxel_count d] \<inter> ?T) = ?T"
    unfolding unravel_range by (auto simp: voxels_with_def)
  obtain s' where r: "for_each (cc_scan N) (?s0, 0) [0 ..< voxel_count d]
        = Inr (s', card (class_of (set N) ?T ` ?T))" "scanned d (set N) ?T s' ?T"
    using cc_scan_all [OF sym scanned_initial xs] unfolding e c0 by blast
  have "cc_run d m = Inr (s', card (class_of (offsets m) ?T ` ?T))"
    using N(1) r(1) unfolding N(2) by (simp add: cc_run_def voxel_count_def Let_def)
  then show ?thesis using r(2) by (auto simp: scanned_def)
qed

section \<open>Component count\<close>

text \<open>
  C3. For every grid and every connectivity among 6, 18 and 26,
  \<open>find_connected_components\<close> returns the number of maximal connected sets of solid
  voxels (cells equal to 1) under that adjacency model; the number is 0 exactly when the
  grid has no solid voxel.
\<close>

theorem components_count:
  fixes d :: "('a::one) ndarray"
  assumes "wf_ndarray d" "m \<in> {6, 18, 26}"
  shows "find_connected_components d m
       = Inr (card {C. maximal_connected (offsets m) (voxels_with 1 d) C})
     \<and> (card {C. maximal_connected (offsets m) (voxels_with 1 d) C} = 0 \<longleftrightarrow> voxels_with 1 d = {})"
proof -
  let ?T = "voxels_with 1 d"
  have k: "{C. maximal_connected (offsets m) ?T C} = class_of (offsets m) ?T ` ?T"
    unfolding class_of_def by (rule maximal_connected_classes [OF symmetric_offsets_model])
  obtain s where "cc_run d m = Inr (s, card (class_of (offsets m) ?T ` ?T))"
    using cc_run_count [OF assms(2)] by blast
  then have "find_connected_components d m = Inr (card (class_of (offsets m) ?T ` ?T))"
    by (simp add: find_connected_components_def)
  moreover have "card (class_of (offsets m) ?T ` ?T) = 0 \<longleftrightarrow> ?T = {}"
    using finite_voxels_with [of 1 d] by simp
  ultimately show ?thesis unfolding k by simp
qed

theorem components_count_witness:
  "wf_ndarray diagonal_pair \<and> (18::int) \<in> {6, 18, 26}
   \<and> find_connected_components diagonal_pair 18 = Inr 2
   \<and> card {C. maximal_connected (offsets 18) (voxels_with 1 diagonal_pair) C} = 2"
proof -
  have w: "wf_ndarray diagonal_pair" by (simp add: wf_ndarray_def diagonal_pair_def)
  have m: "(18::int) \<in> {6, 18, 26}" by simp
  have e: "find_connected_components diagonal_pair 18 = Inr 2" by code_simp
  show ?thesis using components_count [OF w m] w e by simp
qed

section \<open>Flood fill over empty voxels\<close>

lemma bb_visit_pos:
  assumes "store_ok d s"
  shows "bb_visit c (s, q, b) off =
     Inr (if inb d (shift c off)
           then (if cell d (shift c off) = 0 \<and> shift c off \<notin> visited_set s
                 then (s\<lparr>visited := (visited s)[rav d (shift c off) := True]\<rparr>, q @ [shift c off], b)
                 else (s, q, b))
           else (s, q, True))"
proof -
  obtain cx cy cz where c: "c = (cx, cy, cz)" by (cases c)
  obtain dx dy dz where off: "off = (dx, dy, dz)" by (cases off)
  have d: "data s = d" and len: "length (visited s) = voxel_count d"
    using assms by (simp_all add: store_ok_def)
  show ?thesis
  proof (cases "in_bounds d (cx + dx) (cy + dy) (cz + dz)")
    case False
    then show ?thesis by (simp add: c off d shift_def inb_def)
  next
    case True
    then have i: "inb d (cx + dx, cy + dy, cz + dz)" by (simp add: inb_def)
    have lt: "ravel d (cx + dx) (cy + dy) (cz + dz) < length (visited s)"
      using rav_lt [OF i] len by (simp add: rav_def)
    show ?thesis
      using True lt i
      by (simp add: c off d shift_def inb_def cell_def rav_def visited_set_def Let_def)
  qed
qed

lemma bb_neighbors_pos:
  assumes "store_ok d s"
  shows "\<exists>s' q' b'. for_each (bb_visit c) (s, q, b) N = Inr (s', q', b') \<and> store_ok d s'
     \<and> visited_set s' = visited_set s \<union> {n. n \<in> voxels_with 0 d \<and> (\<exists>off \<in> set N. n = shift c off)}
     \<and> set q' = set q \<union> (visited_set s' - visited_set s)
     \<and> (b' \<longleftrightarrow> b \<or> touches d (set N) c)"
  using assms
proof (induction N arbitrary: s q b)
  case Nil
  then show ?case by (simp add: touches_def)
next
  case (Cons off N)
  let ?n = "shift c off"
  let ?new = "inb d ?n \<and> cell d ?n = 0 \<and> ?n \<notin> visited_set s"
  let ?s1 = "if ?new then s\<lparr>visited := (visited s)[rav d ?n := True]\<rparr> else s"
  let ?q1 = "if ?new then q @ [?n] else q"
  let ?b1 = "b \<or> \<not> inb d ?n"
  have d: "data s = d" and len: "length (visited s) = voxel_count d"
    using Cons.prems by (simp_all add: store_ok_def)
  have step: "bb_visit c (s, q, b) off = Inr (?s1, ?q1, ?b1)"
    using bb_visit_pos [OF Cons.prems, of c q b off] by auto
  have ok1: "store_ok d ?s1" using Cons.prems by (simp add: store_ok_mark)
  have v1: "visited_set ?s1 = visited_set s \<union> {n. n \<in> voxels_with 0 d \<and> n = ?n}"
  proof (cases ?new)
    case True
    then show ?thesis
      using visited_set_mark [of s ?n] d len by (auto simp: voxels_with_def)
  next
    case False
    then show ?thesis by (auto simp: voxels_with_def)
  qed
  have q1: "set ?q1 = set q \<union> (visited_set ?s1 - visited_set s)"
    unfolding v1 by (auto simp: voxels_with_def)
  obtain s' q' b' where r: "for_each (bb_visit c) (?s1, ?q1, ?b1) N = Inr (s', q', b')"
    "store_ok d s'"
    "visited_set s' = visited_set ?s1 \<union> {n. n \<in> voxels_with 0 d \<and> (\<exists>off \<in> set N. n = shift c off)}"
    "set q' = set ?q1 \<union> (visited_set s' - visited_set ?s1)"
    "b' \<longleftrightarrow> ?b1 \<or> touches d (set N) c"
    using Cons.IH [OF ok1, of ?q1 ?b1] by blast
  have "for_each (bb_visit c) (s, q, b) (off # N) = Inr (s', q', b')"
    using step r(1) by simp
  moreover have "visited_set s' = visited_set s
      \<union> {n. n \<in> voxels_with 0 d \<and> (\<exists>off' \<in> set (off # N). n = shift c off')}"
    unfolding r(3) v1 by auto
  moreover have "set q' = set q \<union> (visited_set s' - visited_set s)"
    unfolding r(4) q1 unfolding r(3) v1 by blast
  moreover have "b' \<longleftrightarrow> b \<or> touches d (set (off # N)) c"
    unfolding r(5) by (auto simp: touches_def)
  ultimately show ?case using r(2) by blast
qed

lemma bb_bfs_loop_correct:
  fixes d :: "('a::zero) ndarray"
  assumes "store_ok d s"
    and "set q \<subseteq> voxels_with 0 d"
    and "\<forall>p \<in> visited_set s. p \<notin> set q \<longrightarrow>
           (\<forall>r. (p, r) \<in> step_rel (set N) (voxels_with 0 d) \<longrightarrow> r \<in> visited_set s)"
  shows "\<exists>s' en. bb_bfs_loop N s q b = Inr (s', en) \<and> store_ok d s'
     \<and> visited_set s \<subseteq> visited_set s'
     \<and> visited_set s' \<subseteq> visited_set s \<union> (step_rel (set N) (voxels_with 0 d))\<^sup>* `` set q
     \<and> (\<forall>p \<in> visited_set s'. \<forall>r. (p, r) \<in> step_rel (set N) (voxels_with 0 d) \<longrightarrow> r \<in> visited_set s')
     \<and> (en \<longleftrightarrow> \<not> (b \<or> (\<exists>p \<in> set q \<union> (visited_set s' - visited_set s). touches d (set N) p)))"
  using assms
proof (induction N s q b rule: bb_bfs_loop.induct)
  case (1 neighbors s is_boundary)
  then show ?case by simp
next
  case (2 neighbors s c q b)
  let ?T = "voxels_with 0 d"
  let ?E = "step_rel (set neighbors) ?T"
  have cT: "c \<in> ?T" using "2.prems"(2) by simp
  obtain s1 q1 b1 where n: "for_each (bb_visit c) (s, q, b) neighbors = Inr (s1, q1, b1)"
    and ok1: "store_ok d s1"
    and v1: "visited_set s1 = visited_set s \<union> ?E `` {c}"
    and q1: "set q1 = set q \<union> (visited_set s1 - visited_set s)"
    and b1: "b1 \<longleftrightarrow> b \<or> touches d (set neighbors) c"
    using bb_neighbors_pos [OF "2.prems"(1), of c q b neighbors]
    unfolding step_rel_image [OF cT] by blast
  have newT: "visited_set s1 - visited_set s \<subseteq> ?E `` {c}" using v1 by blast
  have ET: "?E `` {c} \<subseteq> ?T" by (auto simp: step_rel_def)
  have p2: "set q1 \<subseteq> ?T"
    unfolding q1 using "2.prems"(2) newT ET by auto
  have p3: "\<forall>p \<in> visited_set s1. p \<notin> set q1 \<longrightarrow>
           (\<forall>r. (p, r) \<in> ?E \<longrightarrow> r \<in> visited_set s1)"
  proof (intro ballI impI allI)
    fix p r assume p: "p \<in> visited_set s1" "p \<notin> set q1" and e: "(p, r) \<in> ?E"
    from p have pv: "p \<in> visited_set s" and pq: "p \<notin> set q"
      unfolding q1 by auto
    show "r \<in> visited_set s1"
    proof (cases "p = c")
      case True
      then show ?thesis using e v1 by auto
    next
      case False
      then have "p \<notin> set (c # q)" using pq by simp
      then have "r \<in> visited_set s" using "2.prems"(3) pv e by blast
      then show ?thesis using v1 by simp
    qed
  qed
  obtain s' en where r: "bb_bfs_loop neighbors s1 q1 b1 = Inr (s', en)" "store_ok d s'"
    "visited_set s1 \<subseteq> visited_set s'"
    "visited_set s' \<subseteq> visited_set s1 \<union> ?E\<^sup>* `` set q1"
    "\<forall>p \<in> visited_set s'. \<forall>r. (p, r) \<in> ?E \<longrightarrow> r \<in> visited_set s'"
    "en \<longleftrightarrow> \<not> (b1 \<or> (\<exists>p \<in> set q1 \<union> (visited_set s' - visited_set s1). touches d (set neighbors) p))"
    using "2.IH" [OF n refl refl ok1 p2 p3] by blast
  have run: "bb_bfs_loop neighbors s (c # q) b = Inr (s', en)"
    using n r(1) by simp
  have mono: "visited_set s \<subseteq> visited_set s'" using v1 r(3) by blast
  have a: "?E\<^sup>* `` (?E `` {c}) \<subseteq> ?E\<^sup>* `` {c}"
  proof
    fix x assume "x \<in> ?E\<^sup>* `` (?E `` {c})"
    then obtain y where "(c, y) \<in> ?E" "(y, x) \<in> ?E\<^sup>*" by blast
    then have "(c, x) \<in> ?E\<^sup>*" by (rule converse_rtrancl_into_rtrancl)
    then show "x \<in> ?E\<^sup>* `` {c}" by blast
  qed
  have b': "?E\<^sup>* `` {c} \<subseteq> ?E\<^sup>* `` set (c # q)"
    by (rule Image_mono) simp_all
  have c': "?E\<^sup>* `` set q \<subseteq> ?E\<^sup>* `` set (c # q)"
    by (rule Image_mono) auto
  have e: "?E\<^sup>* `` (visited_set s1 - visited_set s) \<subseteq> ?E\<^sup>* `` (?E `` {c})"
    by (rule Image_mono) (simp_all add: newT)
  have f: "?E\<^sup>* `` set q1 \<subseteq> ?E\<^sup>* `` set (c # q)"
  proof -
    have "?E\<^sup>* `` (visited_set s1 - visited_set s) \<subseteq> ?E\<^sup>* `` set (c # q)"
      by (rule order_trans [OF e order_trans [OF a b']])
    then show ?thesis unfolding q1 Image_Un using c' by (rule_tac Un_least)
  qed
  have g: "?E `` {c} \<subseteq> ?E\<^sup>* `` {c}" by blast
  have sound: "visited_set s' \<subseteq> visited_set s \<union> ?E\<^sup>* `` set (c # q)"
  proof
    fix x assume "x \<in> visited_set s'"
    then have "x \<in> visited_set s1 \<or> x \<in> ?E\<^sup>* `` set q1" using r(4) by blast
    then have "x \<in> visited_set s \<or> x \<in> ?E `` {c} \<or> x \<in> ?E\<^sup>* `` set q1"
      unfolding v1 by blast
    moreover have "?E `` {c} \<subseteq> ?E\<^sup>* `` set (c # q)"
      by (rule order_trans [OF g b'])
    ultimately show "x \<in> visited_set s \<union> ?E\<^sup>* `` set (c # q)"
      using f by (elim disjE) (simp, blast, blast)
  qed
  have popped: "set q1 \<union> (visited_set s' - visited_set s1) = set q \<union> (visited_set s' - visited_set s)"
    unfolding q1 using r(3) v1 by blast
  have en: "en \<longleftrightarrow> \<not> (b \<or> (\<exists>p \<in> set (c # q) \<union> (visited_set s' - visited_set s). touches d (set neighbors) p))"
    unfolding r(6) popped b1 by auto
  show ?case
    by (intro exI [of _ s'] exI [of _ en] conjI run r(2) mono sound r(5) en)
qed

lemma bb_bfs_correct:
  fixes d :: "('a::zero) ndarray"
  assumes ok: "store_ok d s"
    and p0: "p0 \<in> voxels_with 0 d" "p0 \<notin> visited_set s"
    and cl: "\<forall>x \<in> visited_set s. \<forall>r. (x, r) \<in> step_rel (set N) (voxels_with 0 d) \<longrightarrow> r \<in> visited_set s"
  shows "\<exists>s' en. bb_bfs N s p0 = Inr (s', en) \<and> store_ok d s'
     \<and> visited_set s' = visited_set s \<union> class_of (set N) (voxels_with 0 d) p0
     \<and> (en \<longleftrightarrow> \<not> (\<exists>p \<in> insert p0 (visited_set s' - visited_set s). touches d (set N) p))"
proof -
  let ?E = "step_rel (set N) (voxels_with 0 d)"
  let ?s0 = "s\<lparr>visited := (visited s)[rav d p0 := True]\<rparr>"
  have d: "data s = d" and len: "length (visited s) = voxel_count d"
    using ok by (simp_all add: store_ok_def)
  have i0: "inb d p0" using p0(1) by (simp add: voxels_with_def)
  have lt: "rav d p0 < length (visited s)" using rav_lt [OF i0] len by simp
  have ok0: "store_ok d ?s0" using ok by (rule store_ok_mark)
  have v0: "visited_set ?s0 = insert p0 (visited_set s)"
    using visited_set_mark [of s p0] i0 len d by simp
  have a2: "set [p0] \<subseteq> voxels_with 0 d" using p0(1) by simp
  have a3: "\<forall>p \<in> visited_set ?s0. p \<notin> set [p0] \<longrightarrow>
           (\<forall>r. (p, r) \<in> ?E \<longrightarrow> r \<in> visited_set ?s0)"
    unfolding v0 using cl by auto
  obtain s' en where r: "bb_bfs_loop N ?s0 [p0] False = Inr (s', en)" "store_ok d s'"
    "visited_set ?s0 \<subseteq> visited_set s'"
    "visited_set s' \<subseteq> visited_set ?s0 \<union> ?E\<^sup>* `` set [p0]"
    "\<forall>p \<in> visited_set s'. \<forall>r. (p, r) \<in> ?E \<longrightarrow> r \<in> visited_set s'"
    "en \<longleftrightarrow> \<not> (False \<or> (\<exists>p \<in> set [p0] \<union> (visited_set s' - visited_set ?s0). touches d (set N) p))"
    using bb_bfs_loop_correct [OF ok0 a2 a3, of False] by blast
  obtain x0 y0 z0 where p: "p0 = (x0, y0, z0)" by (cases p0)
  have run: "bb_bfs N s p0 = Inr (s', en)"
    using r(1) lt unfolding p by (simp add: bb_bfs_def rav_def d)
  have "p0 \<in> visited_set s'" using r(3) v0 by blast
  then have up: "?E\<^sup>* `` {p0} \<subseteq> visited_set s'" using r(5) by (rule closed_class)
  have lo: "visited_set s' \<subseteq> visited_set s \<union> ?E\<^sup>* `` {p0}"
    using r(4) unfolding v0 by auto
  have vs: "visited_set s' = visited_set s \<union> class_of (set N) (voxels_with 0 d) p0"
    unfolding class_of_def using up lo r(3) v0 by blast
  have "set [p0] \<union> (visited_set s' - visited_set ?s0) = insert p0 (visited_set s' - visited_set s)"
    unfolding v0 using p0(2) by auto
  then have en: "en \<longleftrightarrow> \<not> (\<exists>p \<in> insert p0 (visited_set s' - visited_set s). touches d (set N) p)"
    using r(6) by simp
  show ?thesis
    by (intro exI [of _ s'] exI [of _ en] conjI run r(2) vs en)
qed

lemma class_disjoint_reach:
  assumes sym: "symmetric_offsets N" and p: "p \<notin> (step_rel N T)\<^sup>* `` D"
  shows "class_of N T p \<inter> (step_rel N T)\<^sup>* `` D = {}"
proof (rule ccontr)
  assume "class_of N T p \<inter> (step_rel N T)\<^sup>* `` D \<noteq> {}"
  then obtain x a where x: "x \<in> class_of N T p" "a \<in> D" "x \<in> class_of N T a"
    by (auto simp: class_of_def)
  have "class_of N T p = class_of N T x" using class_of_eq [OF sym x(1)] by simp
  also have "\<dots> = class_of N T a" by (rule class_of_eq [OF sym x(3)])
  finally have "p \<in> class_of N T a" using class_of_self [of p N T] by simp
  then show False using p x(2) by (auto simp: class_of_def)
qed

lemma class_new_notin:
  assumes "p \<notin> (step_rel N T)\<^sup>* `` D"
  shows "class_of N T p \<notin> class_of N T ` D"
proof
  assume "class_of N T p \<in> class_of N T ` D"
  then obtain a where a: "a \<in> D" "class_of N T p = class_of N T a" by blast
  then have "p \<in> class_of N T a" using class_of_self [of p N T] by simp
  then show False using assms a(1) by (auto simp: class_of_def)
qed

lemma enclosed_insert_new:
  assumes "finite D" "p \<notin> (step_rel N T)\<^sup>* `` D"
  shows "card (enclosed_classes d N T (insert p D))
       = (if \<not> (\<exists>x \<in> class_of N T p. touches d N x)
          then card (enclosed_classes d N T D) + 1 else card (enclosed_classes d N T D))"
proof -
  have fin: "finite (enclosed_classes d N T D)"
    using assms(1) by (simp add: enclosed_classes_def)
  have notin: "class_of N T p \<notin> enclosed_classes d N T D"
    using class_new_notin [OF assms(2)] by (simp add: enclosed_classes_def)
  show ?thesis
  proof (cases "\<exists>x \<in> class_of N T p. touches d N x")
    case True
    then have "enclosed_classes d N T (insert p D) = enclosed_classes d N T D"
      by (auto simp: enclosed_classes_def)
    then show ?thesis using True by simp
  next
    case False
    then have "enclosed_classes d N T (insert p D) = insert (class_of N T p) (enclosed_classes d N T D)"
      by (auto simp: enclosed_classes_def)
    then show ?thesis using False fin notin by simp
  qed
qed

lemma bb_scan_correct:
  fixes d :: "('a::zero) ndarray"
  assumes sym: "symmetric_offsets (set N)"
    and sc: "scanned d (set N) (voxels_with 0 d) s D"
    and p: "p \<in> voxels_with 0 d"
  shows "\<exists>s'. bb_scan N (s, card (enclosed_classes d (set N) (voxels_with 0 d) D)) p
        = Inr (s', card (enclosed_classes d (set N) (voxels_with 0 d) (insert p D)))
     \<and> scanned d (set N) (voxels_with 0 d) s' (insert p D)"
proof -
  let ?T = "voxels_with 0 d"
  let ?E = "step_rel (set N) ?T"
  have ok: "store_ok d s" and DT: "D \<subseteq> ?T" and vs: "visited_set s = ?E\<^sup>* `` D"
    using sc by (simp_all add: scanned_def)
  have d: "data s = d" using ok by (simp add: store_ok_def)
  have i: "inb d p" using p by (simp add: voxels_with_def)
  obtain x y z where pxyz: "p = (x, y, z)" by (cases p)
  have vi: "visited s ! ravel (data s) x y z \<longleftrightarrow> p \<in> visited_set s"
    using i d by (simp add: visited_set_def pxyz rav_def)
  have finD: "finite D" by (rule finite_subset [OF DT finite_voxels_with])
  show ?thesis
  proof (cases "p \<in> visited_set s")
    case True
    have r: "bb_scan N (s, card (enclosed_classes d (set N) ?T D)) p
        = Inr (s, card (enclosed_classes d (set N) ?T D))"
      using True vi by (simp add: bb_scan_def pxyz)
    have m: "p \<in> ?E\<^sup>* `` D" using True vs by simp
    have "scanned d (set N) ?T s (insert p D)"
      using ok DT p vs classes_insert_old(2) [OF sym m] by (simp add: scanned_def)
    moreover have "enclosed_classes d (set N) ?T (insert p D) = enclosed_classes d (set N) ?T D"
      unfolding enclosed_classes_def classes_insert_old(1) [OF sym m] ..
    ultimately show ?thesis using r by simp
  next
    case False
    have cl: "\<forall>x \<in> visited_set s. \<forall>r. (x, r) \<in> ?E \<longrightarrow> r \<in> visited_set s"
      unfolding vs by (rule reach_closed)
    obtain s' en where b: "bb_bfs N s p = Inr (s', en)" "store_ok d s'"
      "visited_set s' = visited_set s \<union> class_of (set N) ?T p"
      "en \<longleftrightarrow> \<not> (\<exists>x \<in> insert p (visited_set s' - visited_set s). touches d (set N) x)"
      using bb_bfs_correct [OF ok p False cl] by blast
    have m: "p \<notin> ?E\<^sup>* `` D" using False vs by simp
    have "class_of (set N) ?T p \<inter> visited_set s = {}"
      unfolding vs by (rule class_disjoint_reach [OF sym m])
    then have "insert p (visited_set s' - visited_set s) = class_of (set N) ?T p"
      unfolding b(3) using class_of_self [of p "set N" ?T] by blast
    then have en: "en \<longleftrightarrow> \<not> (\<exists>x \<in> class_of (set N) ?T p. touches d (set N) x)"
      using b(4) by simp
    have r: "bb_scan N (s, card (enclosed_classes d (set N) ?T D)) p
        = Inr (s', if en then card (enclosed_classes d (set N) ?T D) + 1
                    else card (enclosed_classes d (set N) ?T D))"
      using False vi b(1) by (simp add: bb_scan_def pxyz)
    have "visited_set s' = ?E\<^sup>* `` insert p D"
      unfolding b(3) vs by (auto simp: class_of_def)
    then have "scanned d (set N) ?T s' (insert p D)"
      using b(2) DT p by (simp add: scanned_def)
    then show ?thesis
      using r enclosed_insert_new [OF finD m, of d] unfolding en by simp
  qed
qed

lemma bb_scan_all:
  fixes d :: "('a::zero) ndarray"
  assumes sym: "symmetric_offsets (set N)"
    and sc: "scanned d (set N) (voxels_with 0 d) s D"
    and xs: "set xs \<subseteq> voxels_with 0 d"
  shows "\<exists>s'. for_each (bb_scan N) (s, card (enclosed_classes d (set N) (voxels_with 0 d) D)) xs
        = Inr (s', card (enclosed_classes d (set N) (voxels_with 0 d) (D \<union> set xs)))
     \<and> scanned d (set N) (voxels_with 0 d) s' (D \<union> set xs)"
  using sc xs
proof (induction xs arbitrary: s D)
  case Nil
  then show ?case by simp
next
  case (Cons p xs)
  let ?T = "voxels_with 0 d"
  have p: "p \<in> ?T" and xs': "set xs \<subseteq> ?T" using Cons.prems(2) by simp_all
  obtain s1 where s1: "bb_scan N (s, card (enclosed_classes d (set N) ?T D)) p
        = Inr (s1, card (enclosed_classes d (set N) ?T (insert p D)))"
    "scanned d (set N) ?T s1 (insert p D)"
    using bb_scan_correct [OF sym Cons.prems(1) p] by blast
  have e: "insert p D \<union> set xs = D \<union> set (p # xs)" by auto
  show ?case
    using Cons.IH [OF s1(2) xs'] s1(1) unfolding e by simp
qed

lemma set_nonzero_eq0: "set (nonzero_eq0 d) = voxels_with 0 d"
proof -
  have "set (nonzero_eq0 d) = unravel d ` {idx. idx < voxel_count d \<and> flat d ! idx = 0}"
    by (auto simp: nonzero_eq0_def voxel_count_def)
  also have "\<dots> = voxels_with 0 d"
  proof
    show "unravel d ` {idx. idx < voxel_count d \<and> flat d ! idx = 0} \<subseteq> voxels_with 0 d"
      using inb_unravel [of _ d] cell_flat [OF inb_unravel, of _ d] rav_unravel [of _ d]
      by (auto simp: voxels_with_def)
    show "voxels_with 0 d \<subseteq> unravel d ` {idx. idx < voxel_count d \<and> flat d ! idx = 0}"
    proof
      fix p assume "p \<in> voxels_with 0 d"
      then have i: "inb d p" and c: "cell d p = 0" by (simp_all add: voxels_with_def)
      have "rav d p \<in> {idx. idx < voxel_count d \<and> flat d ! idx = 0}"
        using rav_lt [OF i] cell_flat [OF i] c by simp
      moreover have "p = unravel d (rav d p)" using unravel_rav [OF i] by simp
      ultimately show "p \<in> unravel d ` {idx. idx < voxel_count d \<and> flat d ! idx = 0}"
        by (rule rev_image_eqI)
    qed
  qed
  finally show ?thesis .
qed

lemma bb_run_count:
  fixes d :: "('a::zero) ndarray"
  assumes "m \<in> {6, 18, 26}"
  shows "\<exists>s. bb_run d m
        = Inr (s, card (enclosed_classes d (offsets m) (voxels_with 0 d) (voxels_with 0 d)))
     \<and> store_ok d s"
proof -
  let ?T = "voxels_with 0 d"
  obtain N where N: "select_neighbors m = Inr N" "set N = offsets m"
    using select_neighbors_offsets [OF assms] by blast
  have sym: "symmetric_offsets (set N)" unfolding N(2) by (rule symmetric_offsets_model)
  let ?s0 = "\<lparr>data = d, visited = replicate (voxel_count d) False\<rparr>"
  have c0: "card (enclosed_classes d (set N) ?T {}) = 0" by (simp add: enclosed_classes_def)
  have xs: "set (nonzero_eq0 d) \<subseteq> ?T" by (simp add: set_nonzero_eq0)
  have e: "{} \<union> set (nonzero_eq0 d) = ?T" by (simp add: set_nonzero_eq0)
  obtain s' where r: "for_each (bb_scan N) (?s0, 0) (nonzero_eq0 d)
        = Inr (s', card (enclosed_classes d (set N) ?T ?T))" "scanned d (set N) ?T s' ?T"
    using bb_scan_all [OF sym scanned_initial xs] unfolding e c0 by blast
  have "bb_run d m = Inr (s', card (enclosed_classes d (offsets m) ?T ?T))"
    using N(1) r(1) unfolding N(2) by (simp add: bb_run_def voxel_count_def Let_def)
  then show ?thesis using r(2) by (auto simp: scanned_def)
qed

lemma enclosed_classes_spec:
  assumes "symmetric_offsets N"
  shows "{C. maximal_connected N T C \<and> (\<forall>p \<in> C. \<forall>off \<in> N. inb d (shift p off))}
       = enclosed_classes d N T T"
  using maximal_connected_classes [OF assms, of T]
  unfolding enclosed_classes_def touches_def class_of_def by blast

lemma offsets_mono: "offsets 6 \<subseteq> offsets 18" "offsets 18 \<subseteq> offsets 26"
  unfolding offsets_def by auto

lemma step_rel_offsets_mono: "N \<subseteq> N' \<Longrightarrow> step_rel N T \<subseteq> step_rel N' T"
  by (auto simp: step_rel_def)

lemma coarser_class:
  assumes "N \<subseteq> N'"
  shows "(step_rel N' T)\<^sup>* `` class_of N T p = class_of N' T p"
proof
  have le: "(step_rel N T)\<^sup>* \<subseteq> (step_rel N' T)\<^sup>*"
    by (rule rtrancl_mono [OF step_rel_offsets_mono [OF assms]])
  show "(step_rel N' T)\<^sup>* `` class_of N T p \<subseteq> class_of N' T p"
  proof
    fix x assume "x \<in> (step_rel N' T)\<^sup>* `` class_of N T p"
    then obtain y where "(p, y) \<in> (step_rel N T)\<^sup>*" "(y, x) \<in> (step_rel N' T)\<^sup>*"
      by (auto simp: class_of_def)
    then have "(p, x) \<in> (step_rel N' T)\<^sup>*" using le by (blast intro: rtrancl_trans)
    then show "x \<in> class_of N' T p" by (simp add: class_of_def)
  qed
  show "class_of N' T p \<subseteq> (step_rel N' T)\<^sup>* `` class_of N T p"
    using class_of_self [of p N T] by (auto simp: class_of_def)
qed

lemma classes_mono:
  assumes "N \<subseteq> N'" "finite T"
  shows "card (class_of N' T ` T) \<le> card (class_of N T ` T)"
proof -
  have "class_of N' T ` T = (\<lambda>C. (step_rel N' T)\<^sup>* `` C) ` (class_of N T ` T)"
    unfolding image_image coarser_class [OF assms(1)] ..
  then show ?thesis using assms(2) by (simp add: card_image_le)
qed

lemma enclosed_mono:
  assumes "N \<subseteq> N'" "finite T"
  shows "card (enclosed_classes d N' T T) \<le> card (enclosed_classes d N T T)"
proof -
  have "enclosed_classes d N' T T \<subseteq> (\<lambda>C. (step_rel N' T)\<^sup>* `` C) ` enclosed_classes d N T T"
  proof
    fix B assume "B \<in> enclosed_classes d N' T T"
    then obtain p where p: "p \<in> T" "B = class_of N' T p" and nt: "\<forall>x \<in> B. \<not> touches d N' x"
      by (auto simp: enclosed_classes_def)
    have le: "(step_rel N T)\<^sup>* \<subseteq> (step_rel N' T)\<^sup>*"
      by (rule rtrancl_mono [OF step_rel_offsets_mono [OF assms(1)]])
    have sub: "class_of N T p \<subseteq> B" unfolding p(2) class_of_def using le by blast
    have "\<forall>x \<in> class_of N T p. \<not> touches d N x"
      using nt sub assms(1) unfolding touches_def by blast
    then have "class_of N T p \<in> enclosed_classes d N T T"
      using p(1) by (simp add: enclosed_classes_def)
    moreover have "B = (step_rel N' T)\<^sup>* `` class_of N T p"
      unfolding p(2) coarser_class [OF assms(1)] ..
    ultimately show "B \<in> (\<lambda>C. (step_rel N' T)\<^sup>* `` C) ` enclosed_classes d N T T"
      by (rule rev_image_eqI)
  qed
  moreover have fin: "finite (enclosed_classes d N T T)"
    using assms(2) by (simp add: enclosed_classes_def)
  ultimately have "card (enclosed_classes d N' T T)
      \<le> card ((\<lambda>C. (step_rel N' T)\<^sup>* `` C) ` enclosed_classes d N T T)"
    by (intro card_mono finite_imageI)
  also have "\<dots> \<le> card (enclosed_classes d N T T)" by (rule card_image_le [OF fin])
  finally show ?thesis .
qed

section \<open>Bubble count\<close>

text \<open>
  C4. For every grid and every connectivity among 6, 18 and 26, \<open>find_bubbles\<close>
  returns the number of maximal connected sets of empty voxels (cells equal to 0) in which
  no voxel has a neighbour outside the grid under that adjacency model. On the
  \<open>3\<times>3\<times>3\<close> grid of ones with a zero at the centre it returns 1 for each of the three
  models, and on the \<open>3\<times>3\<times>3\<close> grid of zeros it returns 0 for each of them.
\<close>

theorem bubbles_count:
  fixes d :: "('a::zero) ndarray"
  assumes "wf_ndarray d" "m \<in> {6, 18, 26}"
  shows "find_bubbles d m
       = Inr (card {C. maximal_connected (offsets m) (voxels_with 0 d) C
                      \<and> (\<forall>p \<in> C. \<forall>off \<in> offsets m. inb d (shift p off))})
     \<and> find_bubbles hollow_cube 6 = Inr 1 \<and> find_bubbles hollow_cube 18 = Inr 1
     \<and> find_bubbles hollow_cube 26 = Inr 1
     \<and> find_bubbles empty_cube 6 = Inr 0 \<and> find_bubbles empty_cube 18 = Inr 0
     \<and> find_bubbles empty_cube 26 = Inr 0"
proof -
  obtain s where "bb_run d m
      = Inr (s, card (enclosed_classes d (offsets m) (voxels_with 0 d) (voxels_with 0 d)))"
    using bb_run_count [OF assms(2)] by blast
  then have "find_bubbles d m
      = Inr (card (enclosed_classes d (offsets m) (voxels_with 0 d) (voxels_with 0 d)))"
    by (simp add: find_bubbles_def)
  then have g: "find_bubbles d m
       = Inr (card {C. maximal_connected (offsets m) (voxels_with 0 d) C
                      \<and> (\<forall>p \<in> C. \<forall>off \<in> offsets m. inb d (shift p off))})"
    unfolding enclosed_classes_spec [OF symmetric_offsets_model] .
  have h: "find_bubbles hollow_cube 6 = Inr 1" "find_bubbles hollow_cube 18 = Inr 1"
    "find_bubbles hollow_cube 26 = Inr 1"
    by code_simp+
  have z: "find_bubbles empty_cube 6 = Inr 0" "find_bubbles empty_cube 18 = Inr 0"
    "find_bubbles empty_cube 26 = Inr 0"
    by code_simp+
  show ?thesis by (intro conjI g h z)
qed

theorem bubbles_count_witness:
  "wf_ndarray hollow_cube \<and> (26::int) \<in> {6, 18, 26}
   \<and> find_bubbles hollow_cube 26 = Inr 1
   \<and> card {C. maximal_connected (offsets 26) (voxels_with 0 hollow_cube) C
              \<and> (\<forall>p \<in> C. \<forall>off \<in> offsets 26. inb hollow_cube (shift p off))} = 1"
proof -
  have w: "wf_ndarray hollow_cube" by (simp add: hollow_cube_def)
  have m: "(26::int) \<in> {6, 18, 26}" by simp
  note t = bubbles_count [OF w m]
  have a: "find_bubbles hollow_cube 26
       = Inr (card {C. maximal_connected (offsets 26) (voxels_with 0 hollow_cube) C
              \<and> (\<forall>p \<in> C. \<forall>off \<in> offsets 26. inb hollow_cube (shift p off))})"
    by (rule t [THEN conjunct1])
  have b: "find_bubbles hollow_cube 26 = Inr 1"
    by (rule t [THEN conjunct2, THEN conjunct2, THEN conjunct2, THEN conjunct1])
  have "card {C. maximal_connected (offsets 26) (voxels_with 0 hollow_cube) C
              \<and> (\<forall>p \<in> C. \<forall>off \<in> offsets 26. inb hollow_cube (shift p off))} = 1"
    using a unfolding b by simp
  then show ?thesis using w m b by simp
qed

section \<open>Looser adjacency\<close>

text \<open>
  C6. For every grid the three component counts and the three bubble counts exist, and
  neither count grows from 6- to 18- to 26-connectivity.
\<close>

theorem adjacency_monotone:
  fixes d :: "('a::zero_neq_one) ndarray"
  assumes "wf_ndarray d"
  shows "\<exists>c6 c18 c26 b6 b18 b26.
     find_connected_components d 6 = Inr c6 \<and> find_connected_components d 18 = Inr c18
     \<and> find_connected_components d 26 = Inr c26 \<and> c6 \<ge> c18 \<and> c18 \<ge> c26
     \<and> find_bubbles d 6 = Inr b6 \<and> find_bubbles d 18 = Inr b18
     \<and> find_bubbles d 26 = Inr b26 \<and> b6 \<ge> b18 \<and> b18 \<ge> b26"
proof -
  let ?S = "voxels_with 1 d" and ?Z = "voxels_with 0 d"
  have c: "find_connected_components d m = Inr (card (class_of (offsets m) ?S ` ?S))"
    if "m \<in> {6, 18, 26}" for m
    using cc_run_count [OF that, of d] by (auto simp: find_connected_components_def)
  have b: "find_bubbles d m = Inr (card (enclosed_classes d (offsets m) ?Z ?Z))"
    if "m \<in> {6, 18, 26}" for m
    using bb_run_count [OF that, of d] by (auto simp: find_bubbles_def)
  have fS: "finite ?S" and fZ: "finite ?Z" by (rule finite_voxels_with)+
  show ?thesis
    using c [of 6] c [of 18] c [of 26] b [of 6] b [of 18] b [of 26]
      classes_mono [OF offsets_mono(1) fS] classes_mono [OF offsets_mono(2) fS]
      enclosed_mono [OF offsets_mono(1) fZ, of d] enclosed_mono [OF offsets_mono(2) fZ, of d]
    by simp
qed

theorem adjacency_monotone_witness:
  "wf_ndarray diagonal_pair
   \<and> find_connected_components diagonal_pair 6 = Inr 2
   \<and> find_connected_components diagonal_pair 18 = Inr 2
   \<and> find_connected_components diagonal_pair 26 = Inr 1
   \<and> find_bubbles diagonal_pair 6 = Inr 0
   \<and> find_bubbles diagonal_pair 18 = Inr 0
   \<and> find_bubbles diagonal_pair 26 = Inr 0"
proof -
  have w: "wf_ndarray diagonal_pair" by (simp add: wf_ndarray_def diagonal_pair_def)
  have e: "find_connected_components diagonal_pair 6 = Inr 2"
    "find_connected_components diagonal_pair 18 = Inr 2"
    "find_connected_components diagonal_pair 26 = Inr 1"
    "find_bubbles diagonal_pair 6 = Inr 0"
    "find_bubbles diagonal_pair 18 = Inr 0"
    "find_bubbles diagonal_pair 26 = Inr 0"
    by code_simp+
  show ?thesis using adjacency_monotone [OF w] w e by simp
qed

section \<open>The grid is only read\<close>

text \<open>
  C9. For every grid and every valid connectivity, both runs end, and the store they
  end in holds the grid that was passed in: the traversals write to \<open>visited\<close> only.
\<close>

theorem grid_unchanged:
  fixes d :: "('a::zero_neq_one) ndarray"
  assumes "wf_ndarray d" "m \<in> {6, 18, 26}"
  shows "\<exists>s n s' n'. cc_run d m = Inr (s, n) \<and> data s = d
     \<and> bb_run d m = Inr (s', n') \<and> data s' = d"
  using cc_run_count [OF assms(2), of d] bb_run_count [OF assms(2), of d]
  by (auto simp: store_ok_def)

theorem grid_unchanged_witness:
  "wf_ndarray hollow_cube \<and> (6::int) \<in> {6, 18, 26}
   \<and> (\<exists>s n s' n'. cc_run hollow_cube 6 = Inr (s, n) \<and> data s = hollow_cube
        \<and> bb_run hollow_cube 6 = Inr (s', n') \<and> data s' = hollow_cube)"
proof -
  have w: "wf_ndarray hollow_cube" by (simp add: hollow_cube_def)
  have m: "(6::int) \<in> {6, 18, 26}" by simp
  show ?thesis using grid_unchanged [OF w m] w by simp
qed

end
